theory Spec2Isabelle
  imports
    Main
    "HOL-Library.Word"
    "HOL-Library.Char_ord"
    "HOL-Library.List_Lexorder"
begin

unbundle bit_operations_syntax

section \<open>LRU cache (include/cache/node.h, include/cache/lru_cache.h)\<close>

text \<open>
  A \<open>Node\<close> carries key, value, the dirty flag and \<open>last_access\<close>. The time stamp is a
  reading of the monotonic clock; it is a natural number here and every operation that
  reads the clock receives the reading as its argument \<open>now\<close>.

  \<open>DoublyLinkedList\<close> is the list of the nodes between the two sentinels, the node after
  the head sentinel (the MRU side) first. \<open>map_\<close> maps each key to its node in that list,
  so \<open>map_.find\<close> is a search of the list by key and \<open>map_.size()\<close> is its length.
\<close>

record node =
  node_key :: string
  node_value :: string
  node_dirty :: bool
  last_access :: nat

record CacheResult =
  hit :: bool
  cr_value :: string

definition Hit :: "string \<Rightarrow> CacheResult" where
  "Hit v = \<lparr>hit = True, cr_value = v\<rparr>"

definition Miss :: CacheResult where
  "Miss = \<lparr>hit = False, cr_value = []\<rparr>"

record LRUCache =
  lru_capacity :: nat
  lru_list :: "node list"

definition LRUCache_new :: "nat \<Rightarrow> LRUCache" where
  "LRUCache_new cap = \<lparr>lru_capacity = cap, lru_list = []\<rparr>"

fun map_find :: "string \<Rightarrow> node list \<Rightarrow> node option" where
  "map_find k [] = None"
| "map_find k (n # ns) = (if node_key n = k then Some n else map_find k ns)"

definition push_front :: "node \<Rightarrow> node list \<Rightarrow> node list" where
  "push_front n ns = n # ns"

definition detach :: "string \<Rightarrow> node list \<Rightarrow> node list" where
  "detach k ns = filter (\<lambda>n. node_key n \<noteq> k) ns"

definition move_to_front :: "node \<Rightarrow> node list \<Rightarrow> node list" where
  "move_to_front n ns = push_front n (detach (node_key n) ns)"

text \<open>\<open>pop_back\<close>: \<open>nullptr\<close> on the empty list, else the node before the tail sentinel.\<close>

definition pop_back :: "node list \<Rightarrow> (node \<times> node list) option" where
  "pop_back ns = (if ns = [] then None else Some (last ns, butlast ns))"

definition lru_get :: "LRUCache \<Rightarrow> nat \<Rightarrow> string \<Rightarrow> CacheResult \<times> LRUCache" where
  "lru_get c now k =
     (case map_find k (lru_list c) of
        None \<Rightarrow> (Miss, c)
      | Some n \<Rightarrow>
          (Hit (node_value n),
           c\<lparr>lru_list := move_to_front (n\<lparr>last_access := now\<rparr>) (lru_list c)\<rparr>))"

text \<open>
  \<open>evict_lru\<close> returns the cache and the nodes handed to the eviction callback (none when
  the list is empty).
\<close>

definition evict_lru :: "LRUCache \<Rightarrow> LRUCache \<times> node list" where
  "evict_lru c =
     (case pop_back (lru_list c) of
        None \<Rightarrow> (c, [])
      | Some (lru, rest) \<Rightarrow> (c\<lparr>lru_list := rest\<rparr>, [lru]))"

text \<open>
  The loop \<open>while (map_.size() >= capacity_) evict_lru();\<close> of \<open>put\<close>. With capacity 0 it
  never ends, so it is a partial function: \<open>None\<close> is "does not return".
\<close>

partial_function (option) evict_while :: "LRUCache \<Rightarrow> node list \<Rightarrow> (LRUCache \<times> node list) option" where
  "evict_while c acc =
     (if length (lru_list c) \<ge> lru_capacity c
      then (case evict_lru c of (c', ev) \<Rightarrow> evict_while c' (acc @ ev))
      else Some (c, acc))"

declare evict_while.simps [code]

definition lru_put :: "LRUCache \<Rightarrow> nat \<Rightarrow> string \<Rightarrow> string \<Rightarrow> (LRUCache \<times> node list) option" where
  "lru_put c now k v =
     (case map_find k (lru_list c) of
        Some n \<Rightarrow>
          Some (c\<lparr>lru_list := move_to_front
                   (n\<lparr>node_value := v, node_dirty := True, last_access := now\<rparr>) (lru_list c)\<rparr>, [])
      | None \<Rightarrow>
          (case evict_while c [] of
             None \<Rightarrow> None
           | Some (c', ev) \<Rightarrow>
               Some (c'\<lparr>lru_list := push_front
                        \<lparr>node_key = k, node_value = v, node_dirty = True, last_access = now\<rparr>
                        (lru_list c')\<rparr>, ev)))"

definition lru_del :: "LRUCache \<Rightarrow> string \<Rightarrow> bool \<times> LRUCache \<times> node list" where
  "lru_del c k =
     (case map_find k (lru_list c) of
        None \<Rightarrow> (False, c, [])
      | Some n \<Rightarrow> (True, c\<lparr>lru_list := detach k (lru_list c)\<rparr>, [n]))"

definition lru_exists :: "LRUCache \<Rightarrow> string \<Rightarrow> bool" where
  "lru_exists c k = (map_find k (lru_list c) \<noteq> None)"

text \<open>
  \<open>keys\<close> walks \<open>map_\<close> from \<open>begin()\<close> to \<open>end()\<close>. The order in which a
  \<open>std::unordered_map\<close> is walked is not fixed by the language: it depends on the hash
  function, the number of buckets and the history of the table. The model takes it as a
  parameter: \<open>walk ks k\<close> is the rank of key \<open>k\<close> in the walk of a table that holds the keys
  \<open>ks\<close>, and \<open>keys\<close> lists the keys by rank. Every key is listed once, whatever \<open>walk\<close> is.
\<close>

definition lru_keys :: "(string list \<Rightarrow> string \<Rightarrow> nat) \<Rightarrow> LRUCache \<Rightarrow> string list" where
  "lru_keys walk c = (let ks = map node_key (lru_list c) in sort_key (walk ks) ks)"

definition lru_dirty_entries :: "LRUCache \<Rightarrow> (string \<times> string) list" where
  "lru_dirty_entries c =
     map (\<lambda>n. (node_key n, node_value n)) (filter node_dirty (lru_list c))"

definition lru_clear_dirty :: "LRUCache \<Rightarrow> string \<Rightarrow> LRUCache" where
  "lru_clear_dirty c k =
     c\<lparr>lru_list := map (\<lambda>n. if node_key n = k then n\<lparr>node_dirty := False\<rparr> else n) (lru_list c)\<rparr>"

definition lru_size :: "LRUCache \<Rightarrow> nat" where
  "lru_size c = length (lru_list c)"

text \<open>\<open>clear\<close>: \<open>while (!map_.empty()) evict_lru();\<close>, the callback sees every node.\<close>

function lru_clear_loop :: "LRUCache \<Rightarrow> node list \<Rightarrow> LRUCache \<times> node list" where
  "lru_clear_loop c acc =
     (if lru_list c \<noteq> []
      then (case evict_lru c of (c', ev) \<Rightarrow> lru_clear_loop c' (acc @ ev))
      else (c, acc))"
  by pat_completeness auto
termination
  by (relation "measure (\<lambda>(c, acc). length (lru_list c))")
     (auto simp: evict_lru_def pop_back_def)

definition lru_clear :: "LRUCache \<Rightarrow> LRUCache \<times> node list" where
  "lru_clear c = lru_clear_loop c []"

text \<open>
  A run of the cache: the operations of the public interface that read or change the
  list, each with the reading of the clock at the time of the call. The readings are
  arbitrary: the code orders the list by \<open>move_to_front\<close> and \<open>push_front\<close>, never by
  comparing time stamps.
\<close>

datatype cache_op =
  Get_op string
| Put_op string string
| Del_op string
| Exists_op string
| Clear_dirty_op string
| Clear_op

fun apply_op :: "LRUCache \<Rightarrow> nat \<Rightarrow> cache_op \<Rightarrow> LRUCache option" where
  "apply_op c now (Get_op k) = Some (snd (lru_get c now k))"
| "apply_op c now (Put_op k v) = map_option fst (lru_put c now k v)"
| "apply_op c now (Del_op k) = Some (fst (snd (lru_del c k)))"
| "apply_op c now (Exists_op k) = Some c"
| "apply_op c now (Clear_dirty_op k) = Some (lru_clear_dirty c k)"
| "apply_op c now Clear_op = Some (fst (lru_clear c))"

fun run_ops :: "LRUCache \<Rightarrow> (nat \<times> cache_op) list \<Rightarrow> LRUCache option" where
  "run_ops c [] = Some c"
| "run_ops c ((now, op) # ops) =
     (case apply_op c now op of
        None \<Rightarrow> None
      | Some c' \<Rightarrow> run_ops c' ops)"

text \<open>
  A key is touched by \<open>get\<close> and by \<open>put\<close> of that key. \<open>last_touch ops k\<close> is the position
  in the run, counted from 1, of the last operation that touches \<open>k\<close>, and 0 when no
  operation does.
\<close>

fun touches :: "cache_op \<Rightarrow> string \<Rightarrow> bool" where
  "touches (Get_op k') k = (k' = k)"
| "touches (Put_op k' v) k = (k' = k)"
| "touches _ k = False"

definition last_touch :: "(nat \<times> cache_op) list \<Rightarrow> string \<Rightarrow> nat" where
  "last_touch ops k =
     (case filter (\<lambda>i. touches (snd (ops ! i)) k) (rev [0..<length ops]) of
        [] \<Rightarrow> 0
      | i # _ \<Rightarrow> Suc i)"

subsection \<open>Eviction order\<close>

lemma lru_keys_every_key:
  "set (lru_keys walk c) = node_key ` set (lru_list c) \<and> length (lru_keys walk c) = lru_size c"
  by (simp add: lru_keys_def Let_def lru_size_def)

lemma evict_while_below:
  "length (lru_list c) < lru_capacity c \<Longrightarrow> evict_while c acc = Some (c, acc)"
  by (subst evict_while.simps) simp

lemma evict_while_full:
  assumes "lru_list c \<noteq> []" "length (lru_list c) = lru_capacity c"
  shows "evict_while c acc =
         Some (c\<lparr>lru_list := butlast (lru_list c)\<rparr>, acc @ [last (lru_list c)])"
proof -
  have "evict_while c acc = evict_while (c\<lparr>lru_list := butlast (lru_list c)\<rparr>) (acc @ [last (lru_list c)])"
    using assms by (subst evict_while.simps) (simp add: evict_lru_def pop_back_def)
  also have "\<dots> = Some (c\<lparr>lru_list := butlast (lru_list c)\<rparr>, acc @ [last (lru_list c)])"
    using assms by (intro evict_while_below) (cases "lru_list c", auto)
  finally show ?thesis .
qed

lemma evict_while_returns:
  "0 < lru_capacity c \<Longrightarrow>
   evict_while c acc =
     Some (c\<lparr>lru_list := take (lru_capacity c - 1) (lru_list c)\<rparr>,
           acc @ rev (drop (lru_capacity c - 1) (lru_list c)))"
proof (induction "length (lru_list c)" arbitrary: c acc rule: less_induct)
  case less
  show ?case
  proof (cases "lru_capacity c \<le> length (lru_list c)")
    case False
    then show ?thesis by (subst evict_while.simps) simp
  next
    case True
    with less.prems have ne: "lru_list c \<noteq> []" by auto
    let ?c = "c\<lparr>lru_list := butlast (lru_list c)\<rparr>"
    have step: "evict_while c acc = evict_while ?c (acc @ [last (lru_list c)])"
      using True ne by (subst evict_while.simps) (simp add: evict_lru_def pop_back_def)
    have "length (lru_list ?c) < length (lru_list c)" using ne by simp
    from less.hyps[OF this, of "acc @ [last (lru_list c)]"] less.prems
    have "evict_while ?c (acc @ [last (lru_list c)]) =
          Some (?c\<lparr>lru_list := take (lru_capacity c - 1) (butlast (lru_list c))\<rparr>,
                (acc @ [last (lru_list c)]) @ rev (drop (lru_capacity c - 1) (butlast (lru_list c))))"
      by simp
    moreover have "take (lru_capacity c - 1) (butlast (lru_list c)) = take (lru_capacity c - 1) (lru_list c)"
      using True less.prems by (simp add: butlast_conv_take min_def)
    moreover have "last (lru_list c) # rev (drop (lru_capacity c - 1) (butlast (lru_list c)))
        = rev (drop (lru_capacity c - 1) (lru_list c))"
    proof -
      have "drop (lru_capacity c - 1) (lru_list c)
          = drop (lru_capacity c - 1) (butlast (lru_list c)) @ [last (lru_list c)]"
        using True less.prems ne
        by (metis append_butlast_last_id drop_append diff_is_0_eq' drop_0 length_butlast
            diff_le_mono)
      then show ?thesis by simp
    qed
    ultimately show ?thesis using step by simp
  qed
qed

lemma lru_put_new_key:
  assumes "0 < lru_capacity c" "map_find k (lru_list c) = None"
  shows "lru_put c now k v =
     Some (c\<lparr>lru_list := \<lparr>node_key = k, node_value = v, node_dirty = True, last_access = now\<rparr>
                 # take (lru_capacity c - 1) (lru_list c)\<rparr>,
           rev (drop (lru_capacity c - 1) (lru_list c)))"
  using assms by (simp add: lru_put_def evict_while_returns push_front_def)

lemma map_find_None: "map_find k ns = None \<longleftrightarrow> k \<notin> set (map node_key ns)"
  by (induction ns) auto

lemma map_find_Some: "map_find k ns = Some n \<Longrightarrow> n \<in> set ns \<and> node_key n = k"
  by (induction ns) (auto split: if_splits)

lemma map_find_distinct:
  "distinct (map node_key ns) \<Longrightarrow> n \<in> set ns \<Longrightarrow> map_find (node_key n) ns = Some n"
  by (induction ns) (auto simp: rev_image_eqI)

lemma run_ops_snoc:
  "run_ops c (ops @ [(now, op)]) =
     (case run_ops c ops of None \<Rightarrow> None | Some c' \<Rightarrow> apply_op c' now op)"
  by (induction c ops rule: run_ops.induct) (auto split: option.splits)

lemma last_touch_snoc:
  "last_touch (ops @ [x]) k =
     (if touches (snd x) k then Suc (length ops) else last_touch ops k)"
proof -
  have "filter (\<lambda>i. touches (snd ((ops @ [x]) ! i)) k) (rev [0..<length ops])
      = filter (\<lambda>i. touches (snd (ops ! i)) k) (rev [0..<length ops])"
    by (rule filter_cong) (auto simp: nth_append)
  then show ?thesis by (simp add: last_touch_def)
qed

lemma last_touch_le: "last_touch ops k \<le> length ops"
proof (cases "filter (\<lambda>i. touches (snd (ops ! i)) k) (rev [0..<length ops])")
  case Nil then show ?thesis by (simp add: last_touch_def)
next
  case (Cons i js)
  then have "i \<in> set (filter (\<lambda>i. touches (snd (ops ! i)) k) (rev [0..<length ops]))" by simp
  then have "i < length ops" by simp
  with Cons show ?thesis by (simp add: last_touch_def)
qed

text \<open>
  The invariant of a run: one node for every key, and the list in the order of the last
  touch, the key touched last first.
\<close>

definition recency_ordered :: "(nat \<times> cache_op) list \<Rightarrow> node list \<Rightarrow> bool" where
  "recency_ordered ops ns \<longleftrightarrow>
     distinct (map node_key ns) \<and>
     sorted_wrt (\<lambda>a b. last_touch ops (node_key b) < last_touch ops (node_key a)) ns"

lemma recency_untouched:
  assumes "distinct (map node_key ns)"
    "sorted_wrt (\<lambda>a b. last_touch ops (node_key b) < last_touch ops (node_key a)) ns"
    "\<forall>n \<in> set ns. \<not> touches (snd x) (node_key n)"
  shows "recency_ordered (ops @ [x]) ns"
proof -
  have "sorted_wrt (\<lambda>a b. last_touch (ops @ [x]) (node_key b) < last_touch (ops @ [x]) (node_key a)) ns"
    using assms(2,3) by (auto simp: last_touch_snoc elim!: sorted_wrt_mono_rel[rotated])
  then show ?thesis using assms(1) by (simp add: recency_ordered_def)
qed

lemma recency_touched:
  assumes "distinct (map node_key ns)"
    "sorted_wrt (\<lambda>a b. last_touch ops (node_key b) < last_touch ops (node_key a)) ns"
    "touches (snd x) (node_key n)" "\<forall>m \<in> set ns. \<not> touches (snd x) (node_key m)"
  shows "recency_ordered (ops @ [x]) (n # ns)"
proof -
  have s: "sorted_wrt (\<lambda>a b. last_touch (ops @ [x]) (node_key b) < last_touch (ops @ [x]) (node_key a)) ns"
    using assms(2,4) by (auto simp: last_touch_snoc elim!: sorted_wrt_mono_rel[rotated])
  have "\<forall>m \<in> set ns. last_touch (ops @ [x]) (node_key m) < last_touch (ops @ [x]) (node_key n)"
    using assms(3,4) last_touch_le[of ops] by (auto simp: last_touch_snoc less_Suc_eq_le)
  moreover have "node_key n \<notin> node_key ` set ns" using assms(3,4) by auto
  ultimately show ?thesis using s assms(1) by (simp add: recency_ordered_def)
qed

lemma recency_move_to_front:
  assumes "recency_ordered ops ns" "touches (snd x) (node_key n)"
    "\<forall>m \<in> set ns. node_key m \<noteq> node_key n \<longrightarrow> \<not> touches (snd x) (node_key m)"
  shows "recency_ordered (ops @ [x]) (move_to_front n ns)"
  unfolding move_to_front_def push_front_def detach_def
  using assms
  by (intro recency_touched) (auto simp: recency_ordered_def distinct_map_filter sorted_wrt_filter)

lemma lru_clear_loop_empty:
  "lru_list (fst (lru_clear_loop c acc)) = [] \<and>
   lru_capacity (fst (lru_clear_loop c acc)) = lru_capacity c"
proof (induction c acc rule: lru_clear_loop.induct)
  case (1 c acc)
  show ?case
  proof (cases "lru_list c = []")
    case True then show ?thesis by simp
  next
    case False
    then show ?thesis using 1[OF False, of "c\<lparr>lru_list := butlast (lru_list c)\<rparr>" "[last (lru_list c)]"]
      by (subst (1 2) lru_clear_loop.simps) (simp add: evict_lru_def pop_back_def)
  qed
qed

lemma evict_while_positive:
  assumes "evict_while c acc = Some y"
  shows "0 < lru_capacity c"
proof (rule evict_while.raw_induct[where P = "\<lambda>c acc y. 0 < lru_capacity c", OF _ assms])
  fix ew c acc y
  assume ih: "\<And>c acc y. ew c acc = Some y \<Longrightarrow> 0 < lru_capacity c"
    and st: "(if lru_capacity c \<le> length (lru_list c)
              then case evict_lru c of (c', ev) \<Rightarrow> ew c' (acc @ ev)
              else Some (c, acc)) = Some (y :: LRUCache \<times> node list)"
  show "0 < lru_capacity c"
  proof (cases "lru_capacity c \<le> length (lru_list c)")
    case False then show ?thesis by simp
  next
    case True
    obtain c' ev where e: "evict_lru c = (c', ev)" by (cases "evict_lru c")
    then have "lru_capacity c' = lru_capacity c"
      by (auto simp: evict_lru_def split: option.splits)
    moreover from st True e have "ew c' (acc @ ev) = Some y" by simp
    ultimately show ?thesis using ih by fastforce
  qed
qed

lemma touches_key:
  "touches (Get_op k) k'  \<longleftrightarrow> k = k'" "touches (Put_op k v) k' \<longleftrightarrow> k = k'"
  by simp_all

lemma recency_step:
  assumes inv: "recency_ordered ops (lru_list c)" and ap: "apply_op c now op = Some c'"
  shows "recency_ordered (ops @ [(now, op)]) (lru_list c') \<and> lru_capacity c' = lru_capacity c"
proof -
  from inv have d: "distinct (map node_key (lru_list c))"
    and s: "sorted_wrt (\<lambda>a b. last_touch ops (node_key b) < last_touch ops (node_key a)) (lru_list c)"
    by (simp_all add: recency_ordered_def)
  show ?thesis
  proof (cases op)
    case (Get_op k)
    show ?thesis
    proof (cases "map_find k (lru_list c)")
      case None
      then have "\<forall>n \<in> set (lru_list c). \<not> touches (snd (now, op)) (node_key n)"
        by (auto simp: Get_op map_find_None)
      from recency_untouched[OF d s this] None ap show ?thesis by (auto simp: Get_op lru_get_def)
    next
      case (Some n)
      then have k: "node_key n = k" by (auto dest: map_find_Some)
      have "recency_ordered (ops @ [(now, op)]) (move_to_front (n\<lparr>last_access := now\<rparr>) (lru_list c))"
        using inv k by (intro recency_move_to_front) (auto simp: Get_op)
      with Some ap show ?thesis by (auto simp: Get_op lru_get_def)
    qed
  next
    case (Put_op k v)
    show ?thesis
    proof (cases "map_find k (lru_list c)")
      case (Some n)
      then have k: "node_key n = k" by (auto dest: map_find_Some)
      have "recency_ordered (ops @ [(now, op)])
             (move_to_front (n\<lparr>node_value := v, node_dirty := True, last_access := now\<rparr>) (lru_list c))"
        using inv k by (intro recency_move_to_front) (auto simp: Put_op)
      with Some ap show ?thesis by (auto simp: Put_op lru_put_def)
    next
      case None
      with ap obtain y where "evict_while c [] = Some y"
        by (auto simp: Put_op lru_put_def split: option.splits)
      then have pos: "0 < lru_capacity c" by (rule evict_while_positive)
      let ?n = "\<lparr>node_key = k, node_value = v, node_dirty = True, last_access = now\<rparr>"
      let ?ns = "take (lru_capacity c - 1) (lru_list c)"
      from ap have c': "c' = c\<lparr>lru_list := ?n # ?ns\<rparr>"
        by (simp add: Put_op lru_put_new_key[OF pos None])
      have sub: "set ?ns \<subseteq> set (lru_list c)" by (rule set_take_subset)
      have d': "distinct (map node_key ?ns)" using d by (simp add: take_map[symmetric])
      have s': "sorted_wrt (\<lambda>a b. last_touch ops (node_key b) < last_touch ops (node_key a)) ?ns"
        using s by (metis append_take_drop_id sorted_wrt_append)
      have "\<forall>m \<in> set ?ns. \<not> touches (snd (now, op)) (node_key m)"
        using None sub by (auto simp: Put_op map_find_None)
      from recency_touched[OF d' s' _ this, of ?n] show ?thesis by (simp add: c' Put_op)
    qed
  next
    case (Del_op k)
    have n: "\<forall>n \<in> set (filter (\<lambda>n. node_key n \<noteq> k) (lru_list c)). \<not> touches (snd (now, op)) (node_key n)"
      "\<forall>n \<in> set (lru_list c). \<not> touches (snd (now, op)) (node_key n)"
      by (simp_all add: Del_op)
    have "recency_ordered (ops @ [(now, op)]) (filter (\<lambda>n. node_key n \<noteq> k) (lru_list c))"
      using d s by (intro recency_untouched n(1)) (simp_all add: distinct_map_filter sorted_wrt_filter)
    moreover have "recency_ordered (ops @ [(now, op)]) (lru_list c)"
      by (rule recency_untouched[OF d s n(2)])
    ultimately show ?thesis using ap
      by (cases "map_find k (lru_list c)") (auto simp: Del_op lru_del_def detach_def)
  next
    case (Exists_op k)
    have "\<forall>n \<in> set (lru_list c). \<not> touches (snd (now, op)) (node_key n)" by (simp add: Exists_op)
    from recency_untouched[OF d s this] ap show ?thesis by (auto simp: Exists_op)
  next
    case (Clear_dirty_op k)
    let ?f = "\<lambda>n. if node_key n = k then n\<lparr>node_dirty := False\<rparr> else n"
    have kf: "\<And>n. node_key (?f n) = node_key n" by simp
    have d': "distinct (map node_key (map ?f (lru_list c)))"
      using d by (simp add: comp_def kf cong: if_cong)
    have s': "sorted_wrt (\<lambda>a b. last_touch ops (node_key b) < last_touch ops (node_key a))
                (map ?f (lru_list c))"
      using s by (simp add: sorted_wrt_map kf cong: if_cong)
    have "\<forall>n \<in> set (map ?f (lru_list c)). \<not> touches (snd (now, op)) (node_key n)"
      by (simp add: Clear_dirty_op)
    from recency_untouched[OF d' s' this] ap show ?thesis
      by (auto simp: Clear_dirty_op lru_clear_dirty_def)
  next
    case Clear_op
    with ap lru_clear_loop_empty[of c "[]"] show ?thesis
      by (auto simp: lru_clear_def recency_ordered_def)
  qed
qed

lemma recency_run:
  "run_ops (LRUCache_new cap) ops = Some c \<Longrightarrow>
   recency_ordered ops (lru_list c) \<and> lru_capacity c = cap"
proof (induction ops arbitrary: c rule: rev_induct)
  case Nil
  then show ?case by (auto simp: recency_ordered_def LRUCache_new_def)
next
  case (snoc x ops)
  obtain now op where x: "x = (now, op)" by (cases x)
  from snoc.prems obtain c0 where c0: "run_ops (LRUCache_new cap) ops = Some c0"
    "apply_op c0 now op = Some c"
    by (auto simp: x run_ops_snoc split: option.splits)
  from snoc.IH[OF c0(1)] recency_step[of ops c0 now op c] c0(2) show ?case by (simp add: x)
qed

lemma least_recent_is_last:
  assumes "recency_ordered ops ns" "n \<in> set ns"
    "\<forall>m \<in> set ns. node_key m \<noteq> node_key n \<longrightarrow>
       last_touch ops (node_key n) < last_touch ops (node_key m)"
  shows "last ns = n"
proof -
  from assms(2) have ne: "ns \<noteq> []" by auto
  then have ns: "ns = butlast ns @ [last ns]" by simp
  show ?thesis
  proof (rule ccontr)
    assume neq: "last ns \<noteq> n"
    with assms(2) ns have inb: "n \<in> set (butlast ns)" by (metis Un_iff empty_iff empty_set set_ConsD set_append)
    from assms(1) have "sorted_wrt (\<lambda>a b. last_touch ops (node_key b) < last_touch ops (node_key a))
        (butlast ns @ [last ns])" using ns by (simp add: recency_ordered_def)
    with inb have lt: "last_touch ops (node_key (last ns)) < last_touch ops (node_key n)"
      by (simp add: sorted_wrt_append)
    from assms(1) have "distinct (map node_key (butlast ns @ [last ns]))"
      using ns by (simp add: recency_ordered_def)
    with inb have "node_key (last ns) \<noteq> node_key n" by auto
    with assms(3) ne have "last_touch ops (node_key n) < last_touch ops (node_key (last ns))" by simp
    with lt show False by simp
  qed
qed

text \<open>
  Claim C5. The cache is the result of any run of operations on a new single shard.
  Its size equals its capacity, and \<open>K\<close> is the key in it that was touched least
  recently: the last \<open>get\<close> or \<open>put\<close> of \<open>K\<close> comes before the last \<open>get\<close> or \<open>put\<close> of
  every other key in the shard. Then \<open>put(Knew, v)\<close> for a key that is not in the map
  returns, hands exactly the node of \<open>K\<close> to the eviction callback, and afterwards the
  shard holds \<open>Knew\<close> and every key it held before other than \<open>K\<close>, and no other key.
  The clock readings of the run are arbitrary, equal readings included.
\<close>

theorem lru_put_evicts_least_recently_touched:
  assumes run: "run_ops (LRUCache_new cap) ops = Some c"
    and full: "lru_size c = lru_capacity c"
    and present: "lru_exists c K"
    and oldest: "\<forall>k. lru_exists c k \<and> k \<noteq> K \<longrightarrow> last_touch ops K < last_touch ops k"
    and fresh: "\<not> lru_exists c Knew"
  shows "\<exists>c' nK. lru_put c now Knew v = Some (c', [nK]) \<and>
           map_find K (lru_list c) = Some nK \<and>
           \<not> lru_exists c' K \<and> lru_exists c' Knew \<and>
           (\<forall>k. k \<noteq> K \<and> lru_exists c k \<longrightarrow> lru_exists c' k) \<and>
           (\<forall>k. lru_exists c' k \<longrightarrow> k = Knew \<or> lru_exists c k) \<and>
           lru_size c' = lru_capacity c'"
proof -
  let ?ns = "lru_list c"
  from recency_run[OF run] have inv: "recency_ordered ops ?ns" by simp
  then have d: "distinct (map node_key ?ns)" by (simp add: recency_ordered_def)
  from present obtain nK where f: "map_find K ?ns = Some nK" by (auto simp: lru_exists_def)
  then have nK: "nK \<in> set ?ns" "node_key nK = K" by (auto dest: map_find_Some)
  have ex: "\<And>c k. lru_exists c k \<longleftrightarrow> k \<in> node_key ` set (lru_list c)"
    by (simp add: lru_exists_def map_find_None)
  have "\<forall>m \<in> set ?ns. node_key m \<noteq> node_key nK \<longrightarrow>
       last_touch ops (node_key nK) < last_touch ops (node_key m)"
    using oldest nK(2) by (auto simp: ex)
  with inv nK(1) have last: "last ?ns = nK" by (rule least_recent_is_last)
  from nK(1) have ne: "?ns \<noteq> []" by auto
  from full have len: "length ?ns = lru_capacity c" by (simp add: lru_size_def)
  from fresh have nf: "map_find Knew ?ns = None" by (simp add: lru_exists_def)
  let ?c' = "c\<lparr>lru_list := push_front
      \<lparr>node_key = Knew, node_value = v, node_dirty = True, last_access = now\<rparr> (butlast ?ns)\<rparr>"
  have put: "lru_put c now Knew v = Some (?c', [nK])"
    using nf evict_while_full[OF ne len, of "[]"] last by (simp add: lru_put_def)
  have ns: "?ns = butlast ?ns @ [nK]" using ne last by (metis append_butlast_last_id)
  then have e: "map node_key ?ns = map node_key (butlast ?ns) @ [K]"
    using nK(2) by (metis list.simps(8,9) map_append)
  with d have notin: "K \<notin> node_key ` set (butlast ?ns)" by simp
  have keys: "node_key ` set ?ns = insert K (node_key ` set (butlast ?ns))"
    using e by (metis Un_insert_right list.set(1,2) set_append set_map sup_bot.right_neutral)
  have "Knew \<noteq> K" using nf nK by (auto simp: map_find_None)
  from ne have "0 < length ?ns" by simp
  with len have sz: "lru_size ?c' = lru_capacity ?c'" by (simp add: lru_size_def push_front_def)
  show ?thesis
    using put f notin keys \<open>Knew \<noteq> K\<close> sz
    by (intro exI[of _ ?c'] exI[of _ nK] conjI) (auto simp: ex push_front_def)
qed

text \<open>
  Scenario S8 of the specification on a shard of capacity 3: \<open>put a; put b; put c; get a\<close>,
  the last two calls with the same clock reading. The next \<open>put d\<close> evicts \<open>b\<close>.
\<close>

definition s8_ops :: "(nat \<times> cache_op) list" where
  "s8_ops = [(1, Put_op ''a'' ''1''), (2, Put_op ''b'' ''2''), (3, Put_op ''c'' ''3''),
             (3, Get_op ''a'')]"

definition s8_cache :: LRUCache where
  "s8_cache = \<lparr>lru_capacity = 3, lru_list =
     [\<lparr>node_key = ''a'', node_value = ''1'', node_dirty = True, last_access = 3\<rparr>,
      \<lparr>node_key = ''c'', node_value = ''3'', node_dirty = True, last_access = 3\<rparr>,
      \<lparr>node_key = ''b'', node_value = ''2'', node_dirty = True, last_access = 2\<rparr>]\<rparr>"

lemma s8_run: "run_ops (LRUCache_new 3) s8_ops = Some s8_cache"
  by (simp add: s8_ops_def s8_cache_def LRUCache_new_def lru_put_def lru_get_def
      evict_while_below push_front_def move_to_front_def detach_def Hit_def)

lemma s8_touch:
  "last_touch s8_ops ''a'' = 4" "last_touch s8_ops ''b'' = 2" "last_touch s8_ops ''c'' = 3"
  by (simp_all add: last_touch_def s8_ops_def upt_conv_Cons)

theorem lru_put_evicts_least_recently_touched_witness:
  "run_ops (LRUCache_new 3) s8_ops = Some s8_cache \<and>
   lru_size s8_cache = lru_capacity s8_cache \<and> lru_exists s8_cache ''b'' \<and>
   \<not> lru_exists s8_cache ''d'' \<and>
   (\<exists>c'. lru_put s8_cache 5 ''d'' ''4'' =
      Some (c', [\<lparr>node_key = ''b'', node_value = ''2'', node_dirty = True, last_access = 2\<rparr>]) \<and>
      \<not> lru_exists c' ''b'' \<and> lru_exists c' ''a'' \<and> lru_exists c' ''c'' \<and> lru_exists c' ''d'')"
proof -
  have h2: "lru_size s8_cache = lru_capacity s8_cache" by (simp add: lru_size_def s8_cache_def)
  have h3: "lru_exists s8_cache ''b''" by (simp add: lru_exists_def s8_cache_def)
  have h4: "\<forall>k. lru_exists s8_cache k \<and> k \<noteq> ''b'' \<longrightarrow> last_touch s8_ops ''b'' < last_touch s8_ops k"
    by (auto simp: lru_exists_def s8_cache_def s8_touch split: if_splits)
  have h5: "\<not> lru_exists s8_cache ''d''" by (simp add: lru_exists_def s8_cache_def)
  have a: "lru_exists s8_cache ''a''" "lru_exists s8_cache ''c''"
    by (simp_all add: lru_exists_def s8_cache_def)
  from lru_put_evicts_least_recently_touched[OF s8_run h2 h3 h4 h5, of 5 "''4''"]
  obtain c' nK where r: "lru_put s8_cache 5 ''d'' ''4'' = Some (c', [nK])"
    "map_find ''b'' (lru_list s8_cache) = Some nK"
    "\<not> lru_exists c' ''b''" "lru_exists c' ''d''"
    "\<forall>k. k \<noteq> ''b'' \<and> lru_exists s8_cache k \<longrightarrow> lru_exists c' k"
    by blast
  from r(2) have "nK = \<lparr>node_key = ''b'', node_value = ''2'', node_dirty = True, last_access = 2\<rparr>"
    by (simp add: s8_cache_def)
  moreover from r(5) a have "lru_exists c' ''a''" "lru_exists c' ''c''" by auto
  ultimately show ?thesis using r s8_run h2 h3 h5 by blast
qed

section \<open>Segmented cache (include/cache/segmented_cache.h)\<close>

text \<open>
  \<open>segments_\<close> is a \<open>std::array\<close> of \<open>N_SEGMENTS\<close> shards, read only at indices below
  \<open>N_SEGMENTS\<close>: a function from the index. \<open>std::hash<std::string>\<close> is implementation
  defined; the hash function is a field of the cache, and so is the order in which the
  hash tables of the shards are walked (\<open>map_walk\<close>, see \<open>lru_keys\<close>). The mutexes
  serialise the calls on one shard; the model is the sequential behaviour under the lock.
\<close>

definition N_SEGMENTS :: nat where
  "N_SEGMENTS = 32"

record SegmentedCache =
  segments :: "nat \<Rightarrow> LRUCache"
  hasher :: "string \<Rightarrow> nat"
  map_walk :: "string list \<Rightarrow> string \<Rightarrow> nat"

definition SegmentedCache_new ::
  "(string \<Rightarrow> nat) \<Rightarrow> (string list \<Rightarrow> string \<Rightarrow> nat) \<Rightarrow> nat \<Rightarrow> SegmentedCache" where
  "SegmentedCache_new h walk total_capacity =
     (let per_segment = max 1 (total_capacity div N_SEGMENTS)
      in \<lparr>segments = (\<lambda>i. LRUCache_new per_segment), hasher = h, map_walk = walk\<rparr>)"

definition segment_for :: "SegmentedCache \<Rightarrow> string \<Rightarrow> nat" where
  "segment_for sc k = hasher sc k mod N_SEGMENTS"

definition sc_get :: "SegmentedCache \<Rightarrow> nat \<Rightarrow> string \<Rightarrow> CacheResult \<times> SegmentedCache" where
  "sc_get sc now k =
     (let i = segment_for sc k in
      case lru_get (segments sc i) now k of
        (r, c') \<Rightarrow> (r, sc\<lparr>segments := (segments sc)(i := c')\<rparr>))"

definition sc_put :: "SegmentedCache \<Rightarrow> nat \<Rightarrow> string \<Rightarrow> string \<Rightarrow> (SegmentedCache \<times> node list) option" where
  "sc_put sc now k v =
     (let i = segment_for sc k in
      case lru_put (segments sc i) now k v of
        None \<Rightarrow> None
      | Some (c', ev) \<Rightarrow> Some (sc\<lparr>segments := (segments sc)(i := c')\<rparr>, ev))"

definition sc_del :: "SegmentedCache \<Rightarrow> string \<Rightarrow> bool \<times> SegmentedCache \<times> node list" where
  "sc_del sc k =
     (let i = segment_for sc k in
      case lru_del (segments sc i) k of
        (r, c', ev) \<Rightarrow> (r, sc\<lparr>segments := (segments sc)(i := c')\<rparr>, ev))"

definition sc_exists :: "SegmentedCache \<Rightarrow> string \<Rightarrow> bool" where
  "sc_exists sc k = lru_exists (segments sc (segment_for sc k)) k"

definition sc_size :: "SegmentedCache \<Rightarrow> nat" where
  "sc_size sc = sum_list (map (\<lambda>i. lru_size (segments sc i)) [0..<N_SEGMENTS])"

definition sc_keys :: "SegmentedCache \<Rightarrow> string list" where
  "sc_keys sc = concat (map (\<lambda>i. lru_keys (map_walk sc) (segments sc i)) [0..<N_SEGMENTS])"

definition sc_dirty_entries :: "SegmentedCache \<Rightarrow> (string \<times> string) list" where
  "sc_dirty_entries sc = concat (map (\<lambda>i. lru_dirty_entries (segments sc i)) [0..<N_SEGMENTS])"

definition sc_clear_dirty :: "SegmentedCache \<Rightarrow> string \<Rightarrow> SegmentedCache" where
  "sc_clear_dirty sc k =
     (let i = segment_for sc k
      in sc\<lparr>segments := (segments sc)(i := lru_clear_dirty (segments sc i) k)\<rparr>)"

definition sc_clear :: "SegmentedCache \<Rightarrow> SegmentedCache \<times> node list" where
  "sc_clear sc =
     fold (\<lambda>i (s, acc). case lru_clear (segments s i) of
             (c', ev) \<Rightarrow> (s\<lparr>segments := (segments s)(i := c')\<rparr>, acc @ ev))
          [0..<N_SEGMENTS] (sc, [])"

section \<open>Storage backend interface (include/persistence/storage_backend.h)\<close>

text \<open>
  \<open>StorageBackend\<close> is an abstract class; an implementation is a state of some type \<open>'b\<close>
  with the virtual functions as functions on it, each returning the state it leaves.
\<close>

record LoadResult =
  found :: bool
  lr_value :: string

definition LoadResult_Hit :: "string \<Rightarrow> LoadResult" where
  "LoadResult_Hit v = \<lparr>found = True, lr_value = v\<rparr>"

definition LoadResult_Miss :: LoadResult where
  "LoadResult_Miss = \<lparr>found = False, lr_value = []\<rparr>"

record 'b StorageBackend =
  be_load :: "'b \<Rightarrow> string \<Rightarrow> LoadResult \<times> 'b"
  be_store :: "'b \<Rightarrow> string \<Rightarrow> string \<Rightarrow> bool \<times> 'b"
  be_remove :: "'b \<Rightarrow> string \<Rightarrow> bool \<times> 'b"

text \<open>
  \<open>FileStorage\<close>: the in-memory map \<open>data_\<close>, rewritten to the file after every change.
  Whether the file can be written is the field \<open>disk_ok\<close>.
\<close>

record FileStorage =
  fs_data :: "string \<rightharpoonup> string"
  disk_ok :: bool

definition fs_load :: "FileStorage \<Rightarrow> string \<Rightarrow> LoadResult \<times> FileStorage" where
  "fs_load fs k =
     (case fs_data fs k of None \<Rightarrow> (LoadResult_Miss, fs) | Some v \<Rightarrow> (LoadResult_Hit v, fs))"

definition fs_store :: "FileStorage \<Rightarrow> string \<Rightarrow> string \<Rightarrow> bool \<times> FileStorage" where
  "fs_store fs k v = (disk_ok fs, fs\<lparr>fs_data := (fs_data fs)(k \<mapsto> v)\<rparr>)"

definition fs_remove :: "FileStorage \<Rightarrow> string \<Rightarrow> bool \<times> FileStorage" where
  "fs_remove fs k =
     (case fs_data fs k of
        None \<Rightarrow> (False, fs)
      | Some v \<Rightarrow> (disk_ok fs, fs\<lparr>fs_data := (fs_data fs)(k := None)\<rparr>))"

definition FileStorage_ops :: "FileStorage StorageBackend" where
  "FileStorage_ops = \<lparr>be_load = fs_load, be_store = fs_store, be_remove = fs_remove\<rparr>"

section \<open>Cache manager (sync/cache_manager.h)\<close>

datatype WriteMode = WriteThrough | WriteBack

text \<open>
  \<open>backend_\<close> is a pointer that may be null: an option. The statistics are 64-bit
  counters. The write-back worker is a background thread and is not part of the model:
  the functions below are what one call does when no other thread runs in between.
\<close>

record 'b CacheManager =
  write_mode :: WriteMode
  cache :: SegmentedCache
  backend :: "'b option"
  cache_hits :: "64 word"
  cache_misses :: "64 word"
  write_through_count :: "64 word"
  write_back_count :: "64 word"

text \<open>
  The eviction callback installed by the constructor: a dirty node is stored in the
  backend. It runs once for every node a cache operation evicts.
\<close>

definition eviction_cb :: "'b StorageBackend \<Rightarrow> node \<Rightarrow> 'b option \<Rightarrow> 'b option" where
  "eviction_cb ops n b =
     (case b of
        None \<Rightarrow> None
      | Some s \<Rightarrow> if node_dirty n then Some (snd (be_store ops s (node_key n) (node_value n)))
                  else Some s)"

definition run_evictions :: "'b StorageBackend \<Rightarrow> node list \<Rightarrow> 'b option \<Rightarrow> 'b option" where
  "run_evictions ops ev b = fold (eviction_cb ops) ev b"

definition mgr_get ::
  "'b StorageBackend \<Rightarrow> 'b CacheManager \<Rightarrow> nat \<Rightarrow> string \<Rightarrow> (CacheResult \<times> 'b CacheManager) option" where
  "mgr_get ops m now k =
     (case sc_get (cache m) now k of (result, c1) \<Rightarrow>
        if hit result then Some (result, m\<lparr>cache := c1, cache_hits := cache_hits m + 1\<rparr>)
        else
          let m1 = m\<lparr>cache := c1, cache_misses := cache_misses m + 1\<rparr> in
          (case backend m1 of
             None \<Rightarrow> Some (Miss, m1)
           | Some b \<Rightarrow>
               (case be_load ops b k of (db_val, b1) \<Rightarrow>
                  if \<not> found db_val then Some (Miss, m1\<lparr>backend := Some b1\<rparr>)
                  else
                    (case sc_put (cache m1) now k (lr_value db_val) of
                       None \<Rightarrow> None
                     | Some (c2, ev) \<Rightarrow>
                         Some (Hit (lr_value db_val),
                               m1\<lparr>cache := sc_clear_dirty c2 k,
                                  backend := run_evictions ops ev (Some b1)\<rparr>)))))"

definition put_write_through ::
  "'b StorageBackend \<Rightarrow> 'b CacheManager \<Rightarrow> nat \<Rightarrow> string \<Rightarrow> string \<Rightarrow> (bool \<times> 'b CacheManager) option" where
  "put_write_through ops m now k v =
     (case sc_put (cache m) now k v of
        None \<Rightarrow> None
      | Some (c1, ev) \<Rightarrow>
          let m1 = m\<lparr>cache := c1, backend := run_evictions ops ev (backend m)\<rparr> in
          (case backend m1 of
             None \<Rightarrow> Some (True, m1\<lparr>write_through_count := write_through_count m1 + 1\<rparr>)
           | Some b \<Rightarrow>
               (case be_store ops b k v of (ok, b1) \<Rightarrow>
                  if \<not> ok then Some (False, m1\<lparr>backend := Some b1\<rparr>)
                  else Some (True, m1\<lparr>cache := sc_clear_dirty c1 k, backend := Some b1,
                                       write_through_count := write_through_count m1 + 1\<rparr>))))"

definition put_write_back ::
  "'b StorageBackend \<Rightarrow> 'b CacheManager \<Rightarrow> nat \<Rightarrow> string \<Rightarrow> string \<Rightarrow> (bool \<times> 'b CacheManager) option" where
  "put_write_back ops m now k v =
     (case sc_put (cache m) now k v of
        None \<Rightarrow> None
      | Some (c1, ev) \<Rightarrow>
          Some (True, m\<lparr>cache := c1, backend := run_evictions ops ev (backend m),
                         write_back_count := write_back_count m + 1\<rparr>))"

definition mgr_put ::
  "'b StorageBackend \<Rightarrow> 'b CacheManager \<Rightarrow> nat \<Rightarrow> string \<Rightarrow> string \<Rightarrow> (bool \<times> 'b CacheManager) option" where
  "mgr_put ops m now k v =
     (if write_mode m = WriteThrough then put_write_through ops m now k v
      else put_write_back ops m now k v)"

definition mgr_del :: "'b StorageBackend \<Rightarrow> 'b CacheManager \<Rightarrow> string \<Rightarrow> bool \<times> 'b CacheManager" where
  "mgr_del ops m k =
     (case sc_del (cache m) k of (r, c1, ev) \<Rightarrow>
        let b1 = run_evictions ops ev (backend m) in
        (True, m\<lparr>cache := c1,
                  backend := (case b1 of None \<Rightarrow> None | Some b \<Rightarrow> Some (snd (be_remove ops b k)))\<rparr>))"

definition mgr_exists :: "'b CacheManager \<Rightarrow> string \<Rightarrow> bool" where
  "mgr_exists m k = sc_exists (cache m) k"

definition mgr_size :: "'b CacheManager \<Rightarrow> nat" where
  "mgr_size m = sc_size (cache m)"

definition mgr_keys :: "'b CacheManager \<Rightarrow> string list" where
  "mgr_keys m = sc_keys (cache m)"

definition flush_all :: "'b StorageBackend \<Rightarrow> 'b CacheManager \<Rightarrow> 'b CacheManager" where
  "flush_all ops m =
     (case sc_clear (cache m) of
        (c1, ev) \<Rightarrow> m\<lparr>cache := c1, backend := run_evictions ops ev (backend m)\<rparr>)"

section \<open>RESP codec (include/network/resp_parser.h)\<close>

definition CRLF :: string where
  "CRLF = [CHR 0x0D, CHR 0x0A]"

text \<open>\<open>std::to_string\<close> of an unsigned and of a signed integer: the decimal digits.\<close>

definition digit_char :: "nat \<Rightarrow> char" where
  "digit_char d = ''0123456789'' ! d"

function to_string_nat :: "nat \<Rightarrow> string" where
  "to_string_nat n =
     (if n < 10 then [digit_char n] else to_string_nat (n div 10) @ [digit_char (n mod 10)])"
  by pat_completeness auto
termination
  by (relation "measure id") auto

definition to_string_int :: "int \<Rightarrow> string" where
  "to_string_int i = (if i < 0 then CHR ''-'' # to_string_nat (nat (- i)) else to_string_nat (nat i))"

definition encode_simple_string :: "string \<Rightarrow> string" where
  "encode_simple_string s = ''+'' @ s @ CRLF"

definition encode_error :: "string \<Rightarrow> string" where
  "encode_error msg = ''-ERR '' @ msg @ CRLF"

definition encode_integer :: "int \<Rightarrow> string" where
  "encode_integer n = '':'' @ to_string_int n @ CRLF"

definition encode_bulk_string :: "string \<Rightarrow> string" where
  "encode_bulk_string s = ''$'' @ to_string_nat (length s) @ CRLF @ s @ CRLF"

definition encode_null :: string where
  "encode_null = ''$-1'' @ CRLF"

definition encode_array :: "string list \<Rightarrow> string" where
  "encode_array items =
     ''*'' @ to_string_nat (length items) @ CRLF @ concat (map encode_bulk_string items)"

text \<open>
  The exceptions of the standard library that the parser can raise: \<open>std::stoi\<close> throws
  \<open>std::invalid_argument\<close> when no digit can be read and \<open>std::out_of_range\<close> when the
  number does not fit an \<open>int\<close>.
\<close>

datatype exn = Invalid_argument | Out_of_range

definition isspace :: "char \<Rightarrow> bool" where
  "isspace c = (of_char c \<in> {32, 9, 10, 11, 12, 13 :: nat})"

definition isdigit :: "char \<Rightarrow> bool" where
  "isdigit c = (48 \<le> (of_char c :: nat) \<and> (of_char c :: nat) \<le> 57)"

definition digits_value :: "string \<Rightarrow> int" where
  "digits_value ds = foldl (\<lambda>acc c. 10 * acc + (int (of_char c) - 48)) 0 ds"

text \<open>
  \<open>std::stoi(s)\<close>: leading white space, an optional sign, then the longest run of decimal
  digits; what follows the digits is ignored.
\<close>

definition stoi :: "string \<Rightarrow> exn + int" where
  "stoi s =
     (let s1 = dropWhile isspace s;
          neg = (s1 \<noteq> [] \<and> hd s1 = CHR ''-'');
          s2 = (if s1 \<noteq> [] \<and> (hd s1 = CHR ''-'' \<or> hd s1 = CHR ''+'') then tl s1 else s1);
          ds = takeWhile isdigit s2
      in if ds = [] then Inl Invalid_argument
         else let v = (if neg then - digits_value ds else digits_value ds)
              in if v < - (2 ^ 31) \<or> 2 ^ 31 - 1 < v then Inl Out_of_range else Inr v)"

text \<open>
  \<open>buf.find("\r\n", pos)\<close>: the first index from \<open>pos\<close> on where CR LF stands, \<open>npos\<close>
  (\<open>None\<close>) when there is none. The recursion runs on the suffix that starts at \<open>pos\<close>.
\<close>

fun find_crlf_from :: "string \<Rightarrow> nat \<Rightarrow> nat option" where
  "find_crlf_from [] i = None"
| "find_crlf_from [c] i = None"
| "find_crlf_from (c # d # cs) i =
     (if c = CHR 0x0D \<and> d = CHR 0x0A then Some i else find_crlf_from (d # cs) (Suc i))"

definition find_crlf :: "string \<Rightarrow> nat \<Rightarrow> nat option" where
  "find_crlf buf pos = find_crlf_from (drop pos buf) pos"

fun find_lf_from :: "string \<Rightarrow> nat \<Rightarrow> nat option" where
  "find_lf_from [] i = None"
| "find_lf_from (c # cs) i = (if c = CHR 0x0A then Some i else find_lf_from cs (Suc i))"

text \<open>
  \<open>buf.substr(pos, n)\<close> for \<open>pos \<le> buf.size()\<close>, which holds at every call of the
  parser. The count is a \<open>size_t\<close>: a difference below zero wraps to a count beyond
  every string, and \<open>substr\<close> then returns the rest of the buffer.
\<close>

definition substr :: "string \<Rightarrow> nat \<Rightarrow> nat \<Rightarrow> string" where
  "substr buf pos n = take n (drop pos buf)"

definition size_t_sub :: "nat \<Rightarrow> nat \<Rightarrow> nat" where
  "size_t_sub a b = (if b \<le> a then a - b else 2 ^ 64 - (b - a))"

text \<open>
  The loop of \<open>parse_array\<close> over the \<open>count\<close> elements, from position \<open>pos\<close> with the
  tokens read so far. An incomplete buffer gives no tokens and nothing consumed.
\<close>

fun parse_elements :: "string \<Rightarrow> nat \<Rightarrow> nat \<Rightarrow> string list \<Rightarrow> exn + (string list \<times> nat)" where
  "parse_elements buf 0 pos tokens = Inr (tokens, pos)"
| "parse_elements buf (Suc n) pos tokens =
     (if pos \<ge> length buf then Inr ([], 0)
      else if buf ! pos \<noteq> CHR ''$'' then
        (case find_crlf buf pos of
           None \<Rightarrow> Inr ([], 0)
         | Some next_crlf \<Rightarrow>
             parse_elements buf n (next_crlf + 2)
               (tokens @ [substr buf (pos + 1) (size_t_sub (size_t_sub next_crlf pos) 1)]))
      else
        (let dollar = pos + 1 in
         case find_crlf buf dollar of
           None \<Rightarrow> Inr ([], 0)
         | Some len_end \<Rightarrow>
             (case stoi (substr buf dollar (len_end - dollar)) of
                Inl e \<Rightarrow> Inl e
              | Inr len \<Rightarrow>
                  if len < 0 then parse_elements buf n (len_end + 2) (tokens @ [[]])
                  else
                    let data_start = len_end + 2 in
                    if data_start + nat len + 2 > length buf then Inr ([], 0)
                    else parse_elements buf n (data_start + nat len + 2)
                           (tokens @ [substr buf data_start (nat len)]))))"

definition parse_array :: "string \<Rightarrow> exn + (string list \<times> nat)" where
  "parse_array buf =
     (case find_crlf buf 1 of
        None \<Rightarrow> Inr ([], 0)
      | Some crlf \<Rightarrow>
          (case stoi (substr buf 1 (crlf - 1)) of
             Inl e \<Rightarrow> Inl e
           | Inr count \<Rightarrow> parse_elements buf (nat count) (crlf + 2) []))"

text \<open>\<open>iss >> token\<close> in a loop: the maximal runs of characters that are not white space.\<close>

fun tokenize :: "string \<Rightarrow> string \<Rightarrow> string list" where
  "tokenize [] cur = (if cur = [] then [] else [cur])"
| "tokenize (c # cs) cur =
     (if isspace c then (if cur = [] then tokenize cs [] else cur # tokenize cs [])
      else tokenize cs (cur @ [c]))"

definition parse_inline :: "string \<Rightarrow> string list \<times> nat" where
  "parse_inline buf =
     (case find_crlf buf 0 of
        Some crlf \<Rightarrow> (tokenize (substr buf 0 crlf) [], crlf + 2)
      | None \<Rightarrow>
          (case find_lf_from buf 0 of
             Some lf \<Rightarrow> (tokenize (substr buf 0 lf) [], lf + 1)
           | None \<Rightarrow> (tokenize buf [], length buf)))"

definition parse :: "string \<Rightarrow> exn + (string list \<times> nat)" where
  "parse buf =
     (if buf = [] then Inr ([], 0)
      else if hd buf = CHR ''*'' then parse_array buf
      else Inr (parse_inline buf))"

section \<open>Command dispatcher (network/client_handler.h)\<close>

record Response =
  data :: string
  close_connection :: bool

definition reply :: "string \<Rightarrow> Response" where
  "reply s = \<lparr>data = s, close_connection = False\<rparr>"

text \<open>\<open>std::toupper\<close> in the default "C" locale, on every character.\<close>

definition toupper :: "char \<Rightarrow> char" where
  "toupper c =
     (let n = (of_char c :: nat) in if 97 \<le> n \<and> n \<le> 122 then char_of (n - 32) else c)"

definition to_upper :: "string \<Rightarrow> string" where
  "to_upper s = map toupper s"

text \<open>The value of SET: \<open>tokens[2]\<close>, then every later token after a single space.\<close>

definition join_value :: "string list \<Rightarrow> string" where
  "join_value ts = foldl (\<lambda>value t. value @ '' '' @ t) (hd ts) (tl ts)"

text \<open>The loop of DEL over \<open>tokens[1..]\<close>: the count of the calls of \<open>del\<close> that return true.\<close>

fun del_loop :: "'b StorageBackend \<Rightarrow> 'b CacheManager \<Rightarrow> string list \<Rightarrow> int \<Rightarrow> int \<times> 'b CacheManager" where
  "del_loop ops m [] count = (count, m)"
| "del_loop ops m (k # ks) count =
     (case mgr_del ops m k of
        (r, m') \<Rightarrow> del_loop ops m' ks (if r then count + 1 else count))"

definition build_info :: "'b CacheManager \<Rightarrow> string" where
  "build_info m =
     ''# Server'' @ CRLF @
     ''distributed_cache_version:1.0.0'' @ CRLF @
     ''write_mode:'' @ (if write_mode m = WriteThrough then ''write-through'' else ''write-back'') @ CRLF @
     CRLF @ ''# Stats'' @ CRLF @
     ''cache_hits:'' @ to_string_nat (unat (cache_hits m)) @ CRLF @
     ''cache_misses:'' @ to_string_nat (unat (cache_misses m)) @ CRLF @
     ''write_through_ops:'' @ to_string_nat (unat (write_through_count m)) @ CRLF @
     ''write_back_ops:'' @ to_string_nat (unat (write_back_count m)) @ CRLF @
     CRLF @ ''# Keyspace'' @ CRLF @
     ''keys:'' @ to_string_nat (mgr_size m) @ CRLF"

definition wrong_args :: "string \<Rightarrow> string" where
  "wrong_args cmd = encode_error (''wrong number of arguments for '' @ [CHR 0x27] @ cmd @ [CHR 0x27])"

text \<open>
  \<open>execute\<close>: the reply and the manager after the command. \<open>None\<close> stands for a call
  that does not return (the eviction loop of a shard of capacity 0). KEYS lists the keys
  shard by shard; inside a shard the order of \<open>std::unordered_map\<close> is not fixed by the
  language and the order of the list is taken.
\<close>

definition execute ::
  "'b StorageBackend \<Rightarrow> 'b CacheManager \<Rightarrow> nat \<Rightarrow> string list \<Rightarrow> (Response \<times> 'b CacheManager) option" where
  "execute ops m now tokens =
     (if tokens = [] then Some (reply (encode_error ''empty command''), m)
      else
        let cmd = to_upper (tokens ! 0) in
        if cmd = ''GET'' then
          (if length tokens < 2 then Some (reply (wrong_args ''GET''), m)
           else (case mgr_get ops m now (tokens ! 1) of
                   None \<Rightarrow> None
                 | Some (result, m') \<Rightarrow>
                     if hit result then Some (reply (encode_bulk_string (cr_value result)), m')
                     else Some (reply encode_null, m')))
        else if cmd = ''SET'' then
          (if length tokens < 3 then Some (reply (wrong_args ''SET''), m)
           else (case mgr_put ops m now (tokens ! 1) (join_value (drop 2 tokens)) of
                   None \<Rightarrow> None
                 | Some (ok, m') \<Rightarrow> Some (reply (encode_simple_string ''OK''), m')))
        else if cmd = ''DEL'' then
          (if length tokens < 2 then Some (reply (wrong_args ''DEL''), m)
           else (case del_loop ops m (drop 1 tokens) 0 of
                   (count, m') \<Rightarrow> Some (reply (encode_integer count), m')))
        else if cmd = ''EXISTS'' then
          (if length tokens < 2 then Some (reply (wrong_args ''EXISTS''), m)
           else Some (reply (encode_integer (if mgr_exists m (tokens ! 1) then 1 else 0)), m))
        else if cmd = ''KEYS'' then Some (reply (encode_array (mgr_keys m)), m)
        else if cmd = ''DBSIZE'' then Some (reply (encode_integer (int (mgr_size m))), m)
        else if cmd = ''FLUSHALL'' \<or> cmd = ''FLUSHDB''
          then Some (reply (encode_simple_string ''OK''), flush_all ops m)
        else if cmd = ''PING'' then
          (if length tokens \<ge> 2 then Some (reply (encode_bulk_string (tokens ! 1)), m)
           else Some (reply (encode_simple_string ''PONG''), m))
        else if cmd = ''QUIT''
          then Some (\<lparr>data = encode_simple_string ''OK'', close_connection = True\<rparr>, m)
        else if cmd = ''INFO'' then Some (reply (encode_bulk_string (build_info m)), m)
        else if cmd = ''COMMAND'' then Some (reply (encode_simple_string ''OK''), m)
        else if cmd = ''CONFIG'' then
          (if length tokens \<ge> 3 \<and> to_upper (tokens ! 1) = ''GET''
           then Some (reply (''*2'' @ CRLF @ encode_bulk_string (tokens ! 2) @ encode_bulk_string []), m)
           else Some (reply (encode_simple_string ''OK''), m))
        else if cmd = ''CLIENT'' then Some (reply (encode_simple_string ''OK''), m)
        else Some (reply (encode_error (''unknown command '' @ [CHR 0x27] @ tokens ! 0 @ [CHR 0x27])), m))"

section \<open>Connection loop (include/network/tcp_server.h)\<close>

text \<open>
  The inner loop of \<open>handle_client\<close> on the bytes received so far: parse, execute, send,
  erase the consumed bytes, until the buffer is empty or holds no complete command. There
  is no \<open>try\<close> around it: an exception of the parser leaves the thread function (\<open>Inl\<close>).
  \<open>clock i\<close> is the reading of the clock during the \<open>i\<close>-th command; \<open>sent\<close> collects the
  replies written to the socket.
\<close>

function process_buffer ::
  "'b StorageBackend \<Rightarrow> 'b CacheManager \<Rightarrow> (nat \<Rightarrow> nat) \<Rightarrow> nat \<Rightarrow> string \<Rightarrow> string list \<Rightarrow>
   (exn + (string list \<times> 'b CacheManager \<times> string \<times> bool)) option" where
  "process_buffer ops m clock i buffer sent =
     (if buffer = [] then Some (Inr (sent, m, buffer, False))
      else
        (case parse buffer of
           Inl e \<Rightarrow> Some (Inl e)
         | Inr (tokens, consumed) \<Rightarrow>
             if tokens = [] \<or> consumed = 0 then Some (Inr (sent, m, buffer, False))
             else
               (case execute ops m (clock i) tokens of
                  None \<Rightarrow> None
                | Some (response, m') \<Rightarrow>
                    if close_connection response
                    then Some (Inr (sent @ [data response], m', drop consumed buffer, True))
                    else process_buffer ops m' clock (Suc i) (drop consumed buffer)
                           (sent @ [data response]))))"
  by pat_completeness auto
termination
  by (relation "measure (\<lambda>(ops, m, clock, i, buffer, sent). length buffer)") auto

declare process_buffer.simps [simp del]

text \<open>The replies a connection has received, when the loop returns without an exception.\<close>

definition replies ::
  "(exn + (string list \<times> 'b CacheManager \<times> string \<times> bool)) option \<Rightarrow> string list option" where
  "replies r = (case r of Some (Inr (sent, m, buffer, closed)) \<Rightarrow> Some sent | _ \<Rightarrow> None)"

section \<open>Well-formed caches and a concrete server\<close>

text \<open>
  The constructor of \<open>SegmentedCache\<close> gives every shard a capacity of at least 1, and no
  operation changes a capacity.
\<close>

definition cache_wf :: "SegmentedCache \<Rightarrow> bool" where
  "cache_wf sc \<longleftrightarrow> (\<forall>i. 0 < lru_capacity (segments sc i))"

text \<open>The node of a key in the shard the key hashes to (\<open>map_.find\<close> in \<open>segment_for(key)\<close>).\<close>

definition sc_find :: "SegmentedCache \<Rightarrow> string \<Rightarrow> node option" where
  "sc_find sc k = map_find k (lru_list (segments sc (segment_for sc k)))"

text \<open>
  A server as \<open>main\<close> builds it: default capacity, write-back mode, a \<open>FileStorage\<close>
  backend with the given content. The hash of a key is the sum of its bytes, and a hash
  table is walked in the order of the hash values.
\<close>

definition byte_sum_hash :: "string \<Rightarrow> nat" where
  "byte_sum_hash s = sum_list (map of_char s)"

definition walk_by_hash :: "string list \<Rightarrow> string \<Rightarrow> nat" where
  "walk_by_hash ks k = byte_sum_hash k"

definition fresh_manager :: "(string \<rightharpoonup> string) \<Rightarrow> FileStorage CacheManager" where
  "fresh_manager disk =
     \<lparr>write_mode = WriteBack, cache = SegmentedCache_new byte_sum_hash walk_by_hash 65536,
      backend = Some \<lparr>fs_data = disk, disk_ok = True\<rparr>,
      cache_hits = 0, cache_misses = 0, write_through_count = 0, write_back_count = 0\<rparr>"

section \<open>Properties of the cache manager\<close>

lemma cache_wf_new: "cache_wf (SegmentedCache_new h w n)"
  by (simp add: cache_wf_def SegmentedCache_new_def LRUCache_new_def Let_def)

lemma sc_get_miss:
  "sc_find sc k = None \<Longrightarrow> sc_get sc now k = (Miss, sc)"
  by (simp add: sc_find_def sc_get_def lru_get_def Let_def)

lemma sc_get_hit:
  "sc_find sc k = Some n \<Longrightarrow> \<exists>sc'. sc_get sc now k = (Hit (node_value n), sc')"
  by (simp add: sc_find_def sc_get_def lru_get_def Let_def)

lemma sc_put_new_key:
  assumes "cache_wf sc" "sc_find sc k = None"
  shows "\<exists>sc' ev. sc_put sc now k v = Some (sc', ev) \<and> hasher sc' = hasher sc \<and>
           sc_find sc' k = Some \<lparr>node_key = k, node_value = v, node_dirty = True, last_access = now\<rparr>"
  using assms
  by (simp add: sc_put_def Let_def lru_put_new_key cache_wf_def sc_find_def segment_for_def)

lemma sc_find_clear_dirty:
  assumes "sc_find sc k = Some n" "node_key n = k"
  shows "sc_find (sc_clear_dirty sc k) k = Some (n\<lparr>node_dirty := False\<rparr>)"
proof -
  have "\<And>ns. map_find k ns = Some n \<Longrightarrow>
     map_find k (map (\<lambda>n. if node_key n = k then n\<lparr>node_dirty := False\<rparr> else n) ns)
       = Some (n\<lparr>node_dirty := False\<rparr>)"
    subgoal for ns by (induction ns) (auto split: if_splits)
    done
  then show ?thesis using assms
    by (simp add: sc_find_def sc_clear_dirty_def Let_def lru_clear_dirty_def segment_for_def)
qed

text \<open>
  Claim C4. The cache-aside read path of \<open>CacheManager::get\<close>, for a cache whose shards
  have positive capacity. If the key is in the cache, \<open>get\<close> returns Hit with the cached
  value and adds one to the hit counter only. If it is not, \<open>get\<close> adds one to the miss
  counter only, and: with no backend it returns Miss; with a backend that has the key it
  returns Hit with the loaded value and the cache then holds the key with that value and
  a cleared dirty flag; with a backend that lacks the key it returns Miss and the cache is
  as before.
\<close>

theorem mgr_get_cache_aside:
  assumes wf: "cache_wf (cache m)"
  shows "(case sc_find (cache m) k of
            Some n \<Rightarrow>
              (\<exists>m'. mgr_get ops m now k = Some (Hit (node_value n), m') \<and>
                    cache_hits m' = cache_hits m + 1 \<and> cache_misses m' = cache_misses m \<and>
                    backend m' = backend m)
          | None \<Rightarrow>
              (\<exists>r m'. mgr_get ops m now k = Some (r, m') \<and>
                    cache_misses m' = cache_misses m + 1 \<and> cache_hits m' = cache_hits m \<and>
                    (case backend m of
                       None \<Rightarrow> r = Miss \<and> cache m' = cache m
                     | Some b \<Rightarrow>
                         (case be_load ops b k of (db_val, b') \<Rightarrow>
                            if found db_val
                            then r = Hit (lr_value db_val) \<and>
                                 sc_find (cache m') k =
                                   Some \<lparr>node_key = k, node_value = lr_value db_val,
                                         node_dirty = False, last_access = now\<rparr>
                            else r = Miss \<and> cache m' = cache m))))"
proof (cases "sc_find (cache m) k")
  case (Some n)
  from sc_get_hit[OF Some, of now] obtain sc' where "sc_get (cache m) now k = (Hit (node_value n), sc')"
    by blast
  then show ?thesis using Some by (simp add: mgr_get_def Hit_def)
next
  case None
  note miss = sc_get_miss[OF None, of now]
  show ?thesis
  proof (cases "backend m")
    case bNone: None
    then show ?thesis using None miss by (simp add: mgr_get_def Miss_def Let_def)
  next
    case (Some b)
    obtain db_val b' where ld: "be_load ops b k = (db_val, b')" by (cases "be_load ops b k")
    show ?thesis
    proof (cases "found db_val")
      case False
      then show ?thesis using None miss Some ld by (simp add: mgr_get_def Miss_def Let_def)
    next
      case True
      from sc_put_new_key[OF wf None, of now "lr_value db_val"] obtain sc' ev where
        p: "sc_put (cache m) now k (lr_value db_val) = Some (sc', ev)"
           "sc_find sc' k = Some \<lparr>node_key = k, node_value = lr_value db_val, node_dirty = True, last_access = now\<rparr>"
        by blast
      have "sc_find (sc_clear_dirty sc' k) k =
              Some \<lparr>node_key = k, node_value = lr_value db_val, node_dirty = False, last_access = now\<rparr>"
        using sc_find_clear_dirty[OF p(2)] by simp
      then show ?thesis using None miss Some ld True p(1)
        by (simp add: mgr_get_def Miss_def Let_def)
    qed
  qed
qed

theorem mgr_get_cache_aside_witness:
  "cache_wf (cache (fresh_manager [''k'' \<mapsto> ''v''])) \<and>
   sc_find (cache (fresh_manager [''k'' \<mapsto> ''v''])) ''k'' = None \<and>
   (\<exists>m'. mgr_get FileStorage_ops (fresh_manager [''k'' \<mapsto> ''v'']) 7 ''k'' = Some (Hit ''v'', m') \<and>
         cache_misses m' = 1 \<and> cache_hits m' = 0 \<and>
         sc_find (cache m') ''k'' =
           Some \<lparr>node_key = ''k'', node_value = ''v'', node_dirty = False, last_access = 7\<rparr>)"
proof -
  let ?m = "fresh_manager [''k'' \<mapsto> ''v'']"
  have wf: "cache_wf (cache ?m)" by (simp add: fresh_manager_def cache_wf_new)
  have nf: "sc_find (cache ?m) ''k'' = None"
    by (simp add: sc_find_def fresh_manager_def SegmentedCache_new_def LRUCache_new_def Let_def)
  have b: "backend ?m = Some \<lparr>fs_data = [''k'' \<mapsto> ''v''], disk_ok = True\<rparr>"
    by (simp add: fresh_manager_def)
  have l: "be_load FileStorage_ops \<lparr>fs_data = [''k'' \<mapsto> ''v''], disk_ok = True\<rparr> ''k''
           = (LoadResult_Hit ''v'', \<lparr>fs_data = [''k'' \<mapsto> ''v''], disk_ok = True\<rparr>)"
    by (simp add: FileStorage_ops_def fs_load_def)
  have c: "cache_misses ?m = 0" "cache_hits ?m = 0" by (simp_all add: fresh_manager_def)
  from mgr_get_cache_aside[OF wf, where k = "''k''" and ops = FileStorage_ops and now = 7]
  show ?thesis
    using wf by (simp add: nf b l c LoadResult_Hit_def)
qed

section \<open>Properties of the dispatcher\<close>

lemma del_loop_counts_all:
  "\<exists>m'. del_loop ops m ks c = (c + int (length ks), m')"
proof (induction ks arbitrary: m c)
  case Nil
  then show ?case by simp
next
  case (Cons k ks)
  obtain m1 where d: "mgr_del ops m k = (True, m1)"
    by (cases "sc_del (cache m) k") (auto simp: mgr_del_def Let_def)
  from Cons[of m1 "c + 1"] obtain m' where "del_loop ops m1 ks (c + 1) = (c + 1 + int (length ks), m')"
    by blast
  with d show ?case by simp
qed

lemma execute_DEL:
  assumes "to_upper (tokens ! 0) = ''DEL''" "2 \<le> length tokens"
  shows "\<exists>m'. execute ops m now tokens = Some (reply (encode_integer (int (length tokens) - 1)), m')"
proof -
  from del_loop_counts_all[of ops m "drop 1 tokens" 0] obtain m' where
    "del_loop ops m (drop 1 tokens) 0 = (int (length (drop 1 tokens)), m')" by auto
  moreover have "int (length (drop 1 tokens)) = int (length tokens) - 1" using assms(2) by simp
  moreover have "tokens \<noteq> []" using assms(2) by auto
  ultimately show ?thesis using assms by (simp add: execute_def Let_def)
qed

lemma parse1: "parse (''SET x 1'' @ CRLF @ ''DEL x y z'' @ CRLF) = Inr ([''SET'', ''x'', ''1''], 9)"
  by (simp add: parse_def parse_inline_def CRLF_def find_crlf_def substr_def isspace_def)

lemma parse2: "parse (''DEL x y z'' @ CRLF) = Inr ([''DEL'', ''x'', ''y'', ''z''], 11)"
  by (simp add: parse_def parse_inline_def CRLF_def find_crlf_def substr_def isspace_def)

lemma up1: "to_upper ''DEL'' = ''DEL''" "to_upper ''SET'' = ''SET''" "to_upper ''EXISTS'' = ''EXISTS''"
  by (simp_all add: to_upper_def toupper_def)

lemma lru_put_returns:
  assumes "0 < lru_capacity c"
  shows "\<exists>c' ev. lru_put c now k v = Some (c', ev) \<and> lru_capacity c' = lru_capacity c"
  using assms by (cases "map_find k (lru_list c)") (simp_all add: lru_put_def evict_while_returns)

lemma sc_put_returns:
  assumes "cache_wf sc"
  shows "\<exists>sc' ev. sc_put sc now k v = Some (sc', ev) \<and> cache_wf sc'"
proof -
  let ?i = "segment_for sc k"
  from assms have "0 < lru_capacity (segments sc ?i)" by (simp add: cache_wf_def)
  from lru_put_returns[OF this, of now k v] obtain c' ev where
    "lru_put (segments sc ?i) now k v = Some (c', ev)" "lru_capacity c' = lru_capacity (segments sc ?i)"
    by blast
  then show ?thesis using assms by (auto simp: sc_put_def Let_def cache_wf_def)
qed

lemma cache_wf_clear_dirty: "cache_wf sc \<Longrightarrow> cache_wf (sc_clear_dirty sc k)"
  by (simp add: cache_wf_def sc_clear_dirty_def Let_def lru_clear_dirty_def)

lemma mgr_put_returns:
  assumes "cache_wf (cache m)"
  shows "\<exists>ok m'. mgr_put ops m now k v = Some (ok, m') \<and> cache_wf (cache m')"
proof -
  from sc_put_returns[OF assms, of now k v] obtain sc' ev where
    p: "sc_put (cache m) now k v = Some (sc', ev)" "cache_wf sc'" by blast
  show ?thesis
  proof (cases "write_mode m")
    case WriteBack
    then show ?thesis using p by (auto simp: mgr_put_def put_write_back_def)
  next
    case WriteThrough
    then show ?thesis using p
      by (auto simp: mgr_put_def put_write_through_def Let_def cache_wf_clear_dirty
          split: option.splits prod.splits)
  qed
qed

lemma execute_SET:
  assumes "to_upper (tokens ! 0) = ''SET''" "3 \<le> length tokens" "cache_wf (cache m)"
  shows "\<exists>m'. execute ops m now tokens = Some (reply (encode_simple_string ''OK''), m') \<and>
              cache_wf (cache m')"
proof -
  from mgr_put_returns[OF assms(3), of ops now "tokens ! 1" "join_value (drop 2 tokens)"]
  obtain ok m' where "mgr_put ops m now (tokens ! 1) (join_value (drop 2 tokens)) = Some (ok, m')"
    "cache_wf (cache m')" by blast
  moreover have "tokens \<noteq> []" using assms(2) by auto
  ultimately show ?thesis using assms(1,2) by (simp add: execute_def Let_def)
qed

lemma fresh_manager_wf: "cache_wf (cache (fresh_manager disk))"
  by (simp add: fresh_manager_def cache_wf_new)

lemma to_string_small: "n < 10 \<Longrightarrow> to_string_nat n = [digit_char n]"
  by simp

text \<open>
  Claim C2, as the code has it. \<open>CacheManager::del\<close> returns true for every key, present
  or not, so the reply of DEL is the number of keys in the request: every DEL with at
  least one key returns, and its integer reply is the number of its arguments.
\<close>

theorem del_replies_number_of_arguments:
  assumes "to_upper (tokens ! 0) = ''DEL''" "2 \<le> length tokens"
  shows "\<exists>m'. execute ops m now tokens = Some (reply (encode_integer (int (length tokens) - 1)), m')"
  using assms by (rule execute_DEL)

theorem del_replies_number_of_arguments_witness:
  "to_upper ([''del'', ''x'', ''y'', ''z''] ! 0) = ''DEL'' \<and>
   2 \<le> length [''del'', ''x'', ''y'', ''z''] \<and>
   (\<exists>m'. execute FileStorage_ops (fresh_manager Map.empty) 0 [''del'', ''x'', ''y'', ''z'']
           = Some (reply ('':3'' @ CRLF), m'))"
proof -
  have u: "to_upper ([''del'', ''x'', ''y'', ''z''] ! 0) = ''DEL''"
    by (simp add: to_upper_def) code_simp
  have l: "2 \<le> length [''del'', ''x'', ''y'', ''z'']" by simp
  have e: "encode_integer (int (length [''del'', ''x'', ''y'', ''z'']) - 1) = '':3'' @ CRLF"
    by (simp add: encode_integer_def to_string_int_def digit_char_def)
  from del_replies_number_of_arguments[OF u l, where ops = FileStorage_ops
      and m = "fresh_manager Map.empty" and now = 0]
  show ?thesis using u l unfolding e by blast
qed

text \<open>
  The claim as it is written fails: on a fresh server the requests \<open>SET x 1\<close> and
  \<open>DEL x y z\<close> are answered \<open>+OK\<close> and \<open>:3\<close>, not \<open>:1\<close>.
\<close>

theorem del_reply_counterexample:
  "replies (process_buffer FileStorage_ops (fresh_manager Map.empty) id 0
      (''SET x 1'' @ CRLF @ ''DEL x y z'' @ CRLF) [])
   = Some [''+OK'' @ CRLF, '':3'' @ CRLF]"
proof -
  let ?m0 = "fresh_manager Map.empty"
  from execute_SET[of "[''SET'', ''x'', ''1'']" ?m0 FileStorage_ops 0]
  obtain m1 where e1: "execute FileStorage_ops ?m0 0 [''SET'', ''x'', ''1'']
      = Some (reply (encode_simple_string ''OK''), m1)"
    by (auto simp: up1 fresh_manager_wf)
  from execute_DEL[of "[''DEL'', ''x'', ''y'', ''z'']" FileStorage_ops m1 "Suc 0"]
  obtain m2 where e2: "execute FileStorage_ops m1 (Suc 0) [''DEL'', ''x'', ''y'', ''z'']
      = Some (reply (encode_integer 3), m2)"
    by (auto simp: up1)
  define buf1 where "buf1 = ''SET x 1'' @ CRLF @ ''DEL x y z'' @ CRLF"
  define buf2 where "buf2 = ''DEL x y z'' @ CRLF"
  have p1: "parse buf1 = Inr ([''SET'', ''x'', ''1''], 9)" unfolding buf1_def by (rule parse1)
  have p2: "parse buf2 = Inr ([''DEL'', ''x'', ''y'', ''z''], 11)" unfolding buf2_def by (rule parse2)
  have d: "drop 9 buf1 = buf2" by (simp add: CRLF_def buf1_def buf2_def)
  have d2: "drop 11 buf2 = []" by (simp add: CRLF_def buf2_def)
  have ne: "buf1 \<noteq> []" "buf2 \<noteq> []" by (simp_all add: buf1_def buf2_def)
  have "process_buffer FileStorage_ops ?m0 id 0 buf1 []
      = process_buffer FileStorage_ops m1 id (Suc 0) buf2 [encode_simple_string ''OK'']"
    by (subst process_buffer.simps) (simp add: p1 e1 d ne reply_def)
  also have "\<dots> = process_buffer FileStorage_ops m2 id (Suc (Suc 0)) [] [encode_simple_string ''OK'', encode_integer 3]"
    by (subst process_buffer.simps) (simp add: p2 e2 d2 ne reply_def)
  also have "\<dots> = Some (Inr ([encode_simple_string ''OK'', encode_integer 3], m2, [], False))"
    by (subst process_buffer.simps) simp
  finally show ?thesis
    by (simp add: buf1_def replies_def encode_simple_string_def encode_integer_def to_string_int_def digit_char_def)
qed

lemma sc_find_absent:
  assumes "k \<notin> set (sc_keys sc)"
  shows "sc_find sc k = None"
proof -
  have "segment_for sc k < N_SEGMENTS" by (simp add: segment_for_def N_SEGMENTS_def)
  then have "set (lru_keys (map_walk sc) (segments sc (segment_for sc k))) \<subseteq> set (sc_keys sc)"
    by (auto simp: sc_keys_def)
  with assms show ?thesis by (auto simp: sc_find_def map_find_None lru_keys_def Let_def)
qed

text \<open>
  Claim C10. EXISTS looks at the cache only. For a key that no shard of the cache holds
  while the backend has it, \<open>CacheManager::exists\<close> is false and the EXISTS command
  replies \<open>:0\<close> and changes nothing, although \<open>get\<close> for the same key in the same state
  returns Hit with the backend's value.
\<close>

theorem exists_ignores_backend:
  assumes wf: "cache_wf (cache m)"
    and absent: "k \<notin> set (mgr_keys m)"
    and be: "backend m = Some b"
    and present: "be_load ops b k = (LoadResult_Hit v, b')"
  shows "\<not> mgr_exists m k \<and>
         execute ops m now [''EXISTS'', k] = Some (reply ('':0'' @ CRLF), m) \<and>
         (\<exists>m'. mgr_get ops m now k = Some (Hit v, m'))"
proof -
  from absent have nf: "sc_find (cache m) k = None" by (simp add: mgr_keys_def sc_find_absent)
  then have ne: "\<not> mgr_exists m k" by (simp add: mgr_exists_def sc_exists_def lru_exists_def sc_find_def)
  have ex: "execute ops m now [''EXISTS'', k] = Some (reply ('':0'' @ CRLF), m)"
    using ne by (simp add: execute_def up1 encode_integer_def to_string_int_def digit_char_def)
  from sc_put_new_key[OF wf nf, of now v] obtain sc' ev where
    "sc_put (cache m) now k v = Some (sc', ev)" by blast
  then have "\<exists>m'. mgr_get ops m now k = Some (Hit v, m')"
    using sc_get_miss[OF nf, of now] be present
    by (simp add: mgr_get_def Miss_def Let_def LoadResult_Hit_def)
  with ne ex show ?thesis by blast
qed

theorem exists_ignores_backend_witness:
  "cache_wf (cache (fresh_manager [''k'' \<mapsto> ''v''])) \<and>
   ''k'' \<notin> set (mgr_keys (fresh_manager [''k'' \<mapsto> ''v''])) \<and>
   fst (be_load FileStorage_ops \<lparr>fs_data = [''k'' \<mapsto> ''v''], disk_ok = True\<rparr> ''k'') = LoadResult_Hit ''v'' \<and>
   \<not> mgr_exists (fresh_manager [''k'' \<mapsto> ''v'']) ''k'' \<and>
   execute FileStorage_ops (fresh_manager [''k'' \<mapsto> ''v'']) 3 [''EXISTS'', ''k'']
     = Some (reply ('':0'' @ CRLF), fresh_manager [''k'' \<mapsto> ''v'']) \<and>
   (\<exists>m'. mgr_get FileStorage_ops (fresh_manager [''k'' \<mapsto> ''v'']) 3 ''k'' = Some (Hit ''v'', m'))"
proof -
  let ?m = "fresh_manager [''k'' \<mapsto> ''v'']"
  let ?b = "\<lparr>fs_data = [''k'' \<mapsto> ''v''], disk_ok = True\<rparr>"
  have wf: "cache_wf (cache ?m)" by (rule fresh_manager_wf)
  have a: "''k'' \<notin> set (mgr_keys ?m)"
    by (simp add: mgr_keys_def sc_keys_def fresh_manager_def SegmentedCache_new_def
        LRUCache_new_def lru_keys_def Let_def)
  have b: "backend ?m = Some ?b" by (simp add: fresh_manager_def)
  have l: "be_load FileStorage_ops ?b ''k'' = (LoadResult_Hit ''v'', ?b)"
    by (simp add: FileStorage_ops_def fs_load_def)
  from exists_ignores_backend[OF wf a b l, of 3] show ?thesis using wf a l by simp
qed

section \<open>Malformed length fields\<close>

lemma parse_bad_header: "parse (''*abc'' @ CRLF) = Inl Invalid_argument"
  by (simp add: parse_def parse_array_def CRLF_def find_crlf_def stoi_def substr_def
      isdigit_def isspace_def)

lemma parse_bad_bulk_length:
  "parse (''*1'' @ CRLF @ ''$x'' @ CRLF @ ''PING'' @ CRLF) = Inl Invalid_argument"
  by (simp add: parse_def parse_array_def CRLF_def find_crlf_def stoi_def substr_def
      isdigit_def isspace_def digits_value_def)

lemma parse_huge_count: "parse (''*99999999999'' @ CRLF) = Inl Out_of_range"
  by (simp add: parse_def parse_array_def CRLF_def find_crlf_def stoi_def substr_def
      isdigit_def isspace_def digits_value_def)

text \<open>
  Claim C8 does not hold for the code. A count or a length that \<open>std::stoi\<close> cannot read
  makes \<open>parse_array\<close> throw, no reply is sent, and since \<open>handle_client\<close> catches
  nothing the exception ends the thread function: with the array header \<open>*abc\<close>, with
  the bulk length \<open>$x\<close>, and with a count beyond the range of \<open>int\<close>.
\<close>

theorem malformed_length_escapes_handle_client:
  "process_buffer ops m clock i (''*abc'' @ CRLF) sent = Some (Inl Invalid_argument) \<and>
   process_buffer ops m clock i (''*1'' @ CRLF @ ''$x'' @ CRLF @ ''PING'' @ CRLF) sent
     = Some (Inl Invalid_argument) \<and>
   process_buffer ops m clock i (''*99999999999'' @ CRLF) sent = Some (Inl Out_of_range)"
proof (intro conjI)
  show "process_buffer ops m clock i (''*abc'' @ CRLF) sent = Some (Inl Invalid_argument)"
    by (subst process_buffer.simps) (simp only: parse_bad_header, simp)
  show "process_buffer ops m clock i (''*1'' @ CRLF @ ''$x'' @ CRLF @ ''PING'' @ CRLF) sent
     = Some (Inl Invalid_argument)"
    by (subst process_buffer.simps) (simp only: parse_bad_bulk_length, simp)
  show "process_buffer ops m clock i (''*99999999999'' @ CRLF) sent = Some (Inl Out_of_range)"
    by (subst process_buffer.simps) (simp only: parse_huge_count, simp)
qed

section \<open>Memtable (include/storage/memtable.h)\<close>

datatype ValueType = kValue | kDeletion

record InternalKey =
  ik_key :: string
  ik_sequence :: "64 word"
  ik_type :: ValueType

text \<open>
  \<open>operator<\<close>: by \<open>key.compare\<close> (the order of the bytes, a proper prefix first), then
  the larger sequence number first. \<open>operator==\<close> compares key and sequence only.
\<close>

definition ikey_less :: "InternalKey \<Rightarrow> InternalKey \<Rightarrow> bool" where
  "ikey_less a b =
     (if ik_key a \<noteq> ik_key b then ik_key a < ik_key b else ik_sequence b < ik_sequence a)"

definition ikey_eq :: "InternalKey \<Rightarrow> InternalKey \<Rightarrow> bool" where
  "ikey_eq a b \<longleftrightarrow> ik_key a = ik_key b \<and> ik_sequence a = ik_sequence b"

text \<open>
  The skip list. A node has its key, its value and the height of its \<open>next\<close> vector. The
  list \<open>sl_nodes\<close> holds the nodes in the order of the level-0 chain from the head; a
  position is 0 for the head and \<open>p > 0\<close> for the \<open>p\<close>-th node. \<open>Insert\<close> links a new node
  into the chains of all levels below its height, so \<open>next[i]\<close> of a position is the first
  later node whose height exceeds \<open>i\<close>.
\<close>

record sl_node =
  sn_ikey :: InternalKey
  sn_value :: string
  sn_height :: nat

record MemTable =
  sl_nodes :: "sl_node list"
  max_height :: nat
  approx_size :: nat
  entry_count :: nat
  rng_state :: "32 word"

definition kMaxHeight :: nat where
  "kMaxHeight = 12"

definition kWriteBufferSize :: nat where
  "kWriteBufferSize = 4 * 1024 * 1024"

definition MemTable_new :: MemTable where
  "MemTable_new = \<lparr>sl_nodes = [], max_height = 1, approx_size = 0, entry_count = 0, rng_state = 42\<rparr>"

fun first_tall :: "nat \<Rightarrow> sl_node list \<Rightarrow> nat \<Rightarrow> nat option" where
  "first_tall i [] q = None"
| "first_tall i (n # ns) q = (if i < sn_height n then Some q else first_tall i ns (Suc q))"

definition next_at :: "sl_node list \<Rightarrow> nat \<Rightarrow> nat \<Rightarrow> nat option" where
  "next_at ns i p = first_tall i (drop p ns) (Suc p)"

definition node_at :: "sl_node list \<Rightarrow> nat \<Rightarrow> sl_node" where
  "node_at ns p = ns ! (p - 1)"

lemma first_tall_range: "first_tall i ns q = Some r \<Longrightarrow> q \<le> r \<and> r < q + length ns"
proof (induction ns arbitrary: q)
  case Nil
  then show ?case by simp
next
  case (Cons n ns)
  show ?case
  proof (cases "i < sn_height n")
    case True
    with Cons.prems show ?thesis by simp
  next
    case False
    with Cons.prems have "first_tall i ns (Suc q) = Some r" by simp
    from Cons.IH[OF this] show ?thesis by simp
  qed
qed

lemma next_at_range: "next_at ns i p = Some q \<Longrightarrow> p < q \<and> q \<le> length ns"
  by (auto simp: next_at_def dest!: first_tall_range)

text \<open>
  The inner loop of the search on level \<open>i\<close>:
  \<open>while (node->next[i] && node->next[i]->ikey < target) node = node->next[i];\<close>
\<close>

function advance :: "sl_node list \<Rightarrow> InternalKey \<Rightarrow> nat \<Rightarrow> nat \<Rightarrow> nat" where
  "advance ns target i p =
     (case next_at ns i p of
        None \<Rightarrow> p
      | Some q \<Rightarrow> if ikey_less (sn_ikey (node_at ns q)) target then advance ns target i q else p)"
  by pat_completeness auto
termination
  by (relation "measure (\<lambda>(ns, target, i, p). length ns - p)") (auto dest: next_at_range)

declare advance.simps [simp del]

text \<open>The outer loop, from level \<open>levels - 1\<close> down to level 0.\<close>

fun descend :: "sl_node list \<Rightarrow> InternalKey \<Rightarrow> nat \<Rightarrow> nat \<Rightarrow> nat" where
  "descend ns target 0 p = p"
| "descend ns target (Suc i) p = descend ns target i (advance ns target i p)"

definition FastRand :: "32 word \<Rightarrow> 32 word" where
  "FastRand s =
     (let s1 = s XOR push_bit 13 s;
          s2 = s1 XOR drop_bit 17 s1
      in s2 XOR push_bit 5 s2)"

function RandomHeight :: "nat \<Rightarrow> 32 word \<Rightarrow> nat \<times> 32 word" where
  "RandomHeight h s =
     (if h < kMaxHeight
      then (let s' = FastRand s in if s' AND 3 = 0 then RandomHeight (Suc h) s' else (h, s'))
      else (h, s))"
  by pat_completeness auto
termination
  by (relation "measure (\<lambda>(h, s). kMaxHeight - h)") auto

declare RandomHeight.simps [simp del]

definition Insert :: "MemTable \<Rightarrow> InternalKey \<Rightarrow> string \<Rightarrow> MemTable" where
  "Insert mt ikey v =
     (let ns = sl_nodes mt;
          p = descend ns ikey (max_height mt) 0
      in case next_at ns 0 p of
           Some q \<Rightarrow>
             if ikey_eq (sn_ikey (node_at ns q)) ikey
             then mt\<lparr>sl_nodes := ns[q - 1 := (node_at ns q)\<lparr>sn_value := v\<rparr>]\<rparr>
             else (case RandomHeight 1 (rng_state mt) of (h, s') \<Rightarrow>
                     mt\<lparr>sl_nodes := take p ns @ \<lparr>sn_ikey = ikey, sn_value = v, sn_height = h\<rparr> # drop p ns,
                        max_height := max (max_height mt) h, rng_state := s'\<rparr>)
         | None \<Rightarrow>
             (case RandomHeight 1 (rng_state mt) of (h, s') \<Rightarrow>
                mt\<lparr>sl_nodes := take p ns @ \<lparr>sn_ikey = ikey, sn_value = v, sn_height = h\<rparr> # drop p ns,
                   max_height := max (max_height mt) h, rng_state := s'\<rparr>))"

definition mt_Put :: "MemTable \<Rightarrow> string \<Rightarrow> string \<Rightarrow> 64 word \<Rightarrow> MemTable" where
  "mt_Put mt k v seq =
     (let mt' = Insert mt \<lparr>ik_key = k, ik_sequence = seq, ik_type = kValue\<rparr> v
      in mt'\<lparr>approx_size := approx_size mt' + length k + length v + 32,
             entry_count := entry_count mt' + 1\<rparr>)"

definition mt_Delete :: "MemTable \<Rightarrow> string \<Rightarrow> 64 word \<Rightarrow> MemTable" where
  "mt_Delete mt k seq =
     (let mt' = Insert mt \<lparr>ik_key = k, ik_sequence = seq, ik_type = kDeletion\<rparr> []
      in mt'\<lparr>approx_size := approx_size mt' + length k + 32,
             entry_count := entry_count mt' + 1\<rparr>)"

record LookupResult =
  lk_found :: bool
  lk_value :: string
  lk_deleted :: bool

definition mt_Get :: "MemTable \<Rightarrow> string \<Rightarrow> LookupResult" where
  "mt_Get mt k =
     (let ns = sl_nodes mt;
          p = descend ns \<lparr>ik_key = k, ik_sequence = - 1, ik_type = kValue\<rparr> (max_height mt) 0
      in case next_at ns 0 p of
           None \<Rightarrow> \<lparr>lk_found = False, lk_value = [], lk_deleted = False\<rparr>
         | Some q \<Rightarrow>
             if ik_key (sn_ikey (node_at ns q)) = k
             then \<lparr>lk_found = True, lk_value = sn_value (node_at ns q),
                   lk_deleted = (ik_type (sn_ikey (node_at ns q)) = kDeletion)\<rparr>
             else \<lparr>lk_found = False, lk_value = [], lk_deleted = False\<rparr>)"

definition ForEach :: "MemTable \<Rightarrow> (InternalKey \<times> string) list" where
  "ForEach mt = map (\<lambda>n. (sn_ikey n, sn_value n)) (sl_nodes mt)"

definition ShouldFlush :: "MemTable \<Rightarrow> bool" where
  "ShouldFlush mt \<longleftrightarrow> kWriteBufferSize \<le> approx_size mt"

text \<open>
  The invariant of the list: the level-0 chain is strictly increasing in \<open>operator<\<close>,
  every node has at least the level-0 link, and so has the head.
\<close>

definition mt_inv :: "MemTable \<Rightarrow> bool" where
  "mt_inv mt \<longleftrightarrow>
     sorted_wrt (\<lambda>a b. ikey_less (sn_ikey a) (sn_ikey b)) (sl_nodes mt) \<and>
     list_all (\<lambda>n. 0 < sn_height n) (sl_nodes mt) \<and>
     0 < max_height mt"

text \<open>The operations on a memtable, and the table a sequence of them builds.\<close>

datatype mt_op = Put string string "64 word" | Delete string "64 word"

fun mt_apply :: "MemTable \<Rightarrow> mt_op \<Rightarrow> MemTable" where
  "mt_apply mt (Put k v seq) = mt_Put mt k v seq"
| "mt_apply mt (Delete k seq) = mt_Delete mt k seq"

definition mt_run :: "mt_op list \<Rightarrow> MemTable" where
  "mt_run ops = foldl mt_apply MemTable_new ops"

text \<open>The entries stored for a user key, and being the newest of them.\<close>

definition entries_for :: "MemTable \<Rightarrow> string \<Rightarrow> sl_node list" where
  "entries_for mt k = filter (\<lambda>n. ik_key (sn_ikey n) = k) (sl_nodes mt)"

definition newest_for :: "MemTable \<Rightarrow> string \<Rightarrow> sl_node \<Rightarrow> bool" where
  "newest_for mt k n \<longleftrightarrow>
     n \<in> set (entries_for mt k) \<and>
     (\<forall>n' \<in> set (entries_for mt k). ik_sequence (sn_ikey n') \<le> ik_sequence (sn_ikey n))"

subsection \<open>The search lands on the newest entry\<close>

lemma ikey_less_irrefl: "\<not> ikey_less a a"
  by (simp add: ikey_less_def)

lemma ikey_less_trans: "ikey_less a b \<Longrightarrow> ikey_less b c \<Longrightarrow> ikey_less a c"
  by (auto simp: ikey_less_def split: if_splits)

lemma ikey_less_total: "\<not> ikey_less a b \<Longrightarrow> \<not> ikey_eq a b \<Longrightarrow> ikey_less b a"
  by (auto simp: ikey_less_def ikey_eq_def split: if_splits)

abbreviation below :: "InternalKey \<Rightarrow> sl_node \<Rightarrow> bool" where
  "below t n \<equiv> ikey_less (sn_ikey n) t"

abbreviation chain_sorted :: "sl_node list \<Rightarrow> bool" where
  "chain_sorted ns \<equiv> sorted_wrt (\<lambda>a b. ikey_less (sn_ikey a) (sn_ikey b)) ns"

definition rank :: "InternalKey \<Rightarrow> sl_node list \<Rightarrow> nat" where
  "rank t ns = length (takeWhile (below t) ns)"

lemma rank_le: "rank t ns \<le> length ns"
  by (simp add: rank_def length_takeWhile_le)

lemma below_iff_rank:
  assumes "chain_sorted ns" "j < length ns"
  shows "below t (ns ! j) \<longleftrightarrow> j < rank t ns"
proof
  assume "j < rank t ns"
  then have "takeWhile (below t) ns ! j \<in> set (takeWhile (below t) ns)" by (simp add: rank_def)
  moreover have "takeWhile (below t) ns ! j = ns ! j"
    using \<open>j < rank t ns\<close> by (simp add: rank_def takeWhile_nth)
  ultimately show "below t (ns ! j)" by (auto dest: set_takeWhileD)
next
  assume b: "below t (ns ! j)"
  show "j < rank t ns"
  proof (rule ccontr)
    assume "\<not> j < rank t ns"
    then have le: "rank t ns \<le> j" by simp
    with assms(2) have r: "rank t ns < length ns" by simp
    then have nb: "\<not> below t (ns ! rank t ns)"
      unfolding rank_def by (rule nth_length_takeWhile)
    show False
    proof (cases "rank t ns = j")
      case True with nb b show False by simp
    next
      case False
      with le have "rank t ns < j" by simp
      with assms have "ikey_less (sn_ikey (ns ! rank t ns)) (sn_ikey (ns ! j))"
        by (simp add: sorted_wrt_iff_nth_less)
      from this b have "below t (ns ! rank t ns)" by (rule ikey_less_trans)
      with nb show False by simp
    qed
  qed
qed

lemma advance_bounds:
  "chain_sorted ns \<Longrightarrow> p \<le> rank t ns \<Longrightarrow>
   p \<le> advance ns t i p \<and> advance ns t i p \<le> rank t ns"
proof (induction ns t i p rule: advance.induct)
  case (1 ns target i p)
  note srt = \<open>chain_sorted ns\<close>
  show ?case
  proof (cases "next_at ns i p")
    case None
    then show ?thesis using 1 by (subst advance.simps, subst advance.simps) simp
  next
    case (Some q)
    then have q: "p < q" "q \<le> length ns" by (auto dest: next_at_range)
    show ?thesis
    proof (cases "ikey_less (sn_ikey (node_at ns q)) target")
      case False
      then show ?thesis using 1 Some by (subst advance.simps, subst advance.simps) simp
    next
      case True
      then have b: "below target (ns ! (q - 1))" by (simp add: node_at_def)
      have ql: "q - 1 < length ns" using q by simp
      have "q - 1 < rank target ns" using below_iff_rank[OF srt ql, of target] b by simp
      with q have "q \<le> rank target ns" by simp
      from 1(1)[OF Some True srt this] q True Some
      show ?thesis by (subst advance.simps, subst advance.simps) simp
    qed
  qed
qed

lemma next_at_level0:
  assumes "list_all (\<lambda>n. 0 < sn_height n) ns"
  shows "next_at ns 0 p = (if p < length ns then Some (Suc p) else None)"
proof (cases "p < length ns")
  case False
  then show ?thesis by (simp add: next_at_def)
next
  case True
  then obtain n rest where d: "drop p ns = n # rest" by (cases "drop p ns") auto
  then have "n \<in> set ns" by (metis in_set_dropD list.set_intros(1))
  with assms have "0 < sn_height n" by (simp add: list_all_iff)
  with d True show ?thesis by (simp add: next_at_def)
qed

lemma advance_level0:
  assumes "chain_sorted ns" "list_all (\<lambda>n. 0 < sn_height n) ns"
  shows "p \<le> rank t ns \<Longrightarrow> advance ns t 0 p = rank t ns"
proof (induction "rank t ns - p" arbitrary: p)
  case 0
  then have p: "p = rank t ns" by simp
  show ?case
  proof (cases "p < length ns")
    case False
    then show ?thesis using p assms(2) by (subst advance.simps) (simp add: next_at_level0)
  next
    case True
    then have "\<not> below t (ns ! p)" using assms(1) p by (simp add: below_iff_rank)
    then show ?thesis using p assms(2) True
      by (subst advance.simps) (simp add: next_at_level0 node_at_def)
  qed
next
  case (Suc d)
  then have lt: "p < rank t ns" by simp
  with rank_le[of t ns] have pl: "p < length ns" by simp
  with lt assms(1) have "below t (ns ! p)" by (simp add: below_iff_rank)
  moreover have "advance ns t 0 (Suc p) = rank t ns" using Suc lt by simp
  ultimately show ?case using assms(2) pl
    by (subst advance.simps) (simp add: next_at_level0 node_at_def)
qed

lemma descend_rank:
  assumes "chain_sorted ns" "list_all (\<lambda>n. 0 < sn_height n) ns"
  shows "p \<le> rank t ns \<Longrightarrow> descend ns t (Suc L) p = rank t ns"
proof (induction L arbitrary: p)
  case 0
  then show ?case using assms by (simp add: advance_level0)
next
  case (Suc L)
  from advance_bounds[OF assms(1) Suc.prems, of "Suc L"]
  have "advance ns t (Suc L) p \<le> rank t ns" by simp
  from Suc.IH[OF this] show ?case by simp
qed

lemma search_lands_at_rank:
  assumes "mt_inv mt"
  shows "descend (sl_nodes mt) t (max_height mt) 0 = rank t (sl_nodes mt)"
proof -
  from assms obtain L where "max_height mt = Suc L" by (cases "max_height mt") (auto simp: mt_inv_def)
  then show ?thesis using assms descend_rank[of "sl_nodes mt" 0 t L] by (simp add: mt_inv_def)
qed

lemma take_rank: "take (rank t ns) ns = takeWhile (below t) ns"
  by (simp add: rank_def takeWhile_eq_take[symmetric])

lemma drop_rank: "drop (rank t ns) ns = dropWhile (below t) ns"
  by (simp add: rank_def dropWhile_eq_drop[symmetric])

lemma chain_sorted_drop: "chain_sorted ns \<Longrightarrow> chain_sorted (dropWhile P ns)"
  by (metis sorted_wrt_append takeWhile_dropWhile_id)

lemma chain_sorted_take: "chain_sorted ns \<Longrightarrow> chain_sorted (takeWhile P ns)"
  by (metis sorted_wrt_append takeWhile_dropWhile_id)

lemma sorted_insert_at_rank:
  assumes srt: "chain_sorted ns"
    and key: "sn_ikey new = t"
    and neq: "\<And>y rest. dropWhile (below t) ns = y # rest \<Longrightarrow> \<not> ikey_eq (sn_ikey y) t"
  shows "chain_sorted (take (rank t ns) ns @ new # drop (rank t ns) ns)"
proof -
  let ?P = "below t"
  have front: "\<forall>x \<in> set (takeWhile ?P ns). ikey_less (sn_ikey x) t"
    by (auto dest: set_takeWhileD)
  have bk: "\<forall>y \<in> set (dropWhile ?P ns). ikey_less t (sn_ikey y)"
  proof (cases "dropWhile ?P ns")
    case Nil show ?thesis unfolding Nil by simp
  next
    case (Cons y0 rest)
    then have "\<not> ?P y0" by (metis hd_dropWhile list.distinct(1) list.sel(1))
    from this neq[OF Cons] have y0: "ikey_less t (sn_ikey y0)" by (rule ikey_less_total)
    from chain_sorted_drop[OF srt, of ?P] Cons
    have "\<forall>y \<in> set rest. ikey_less (sn_ikey y0) (sn_ikey y)" by simp
    with y0 have "\<forall>y \<in> set rest. ikey_less t (sn_ikey y)" by (blast intro: ikey_less_trans)
    with y0 Cons show ?thesis by simp
  qed
  from front bk have "\<forall>x \<in> set (takeWhile ?P ns). \<forall>y \<in> set (dropWhile ?P ns).
      ikey_less (sn_ikey x) (sn_ikey y)" by (blast intro: ikey_less_trans)
  with front bk key chain_sorted_drop[OF srt, of ?P] chain_sorted_take[OF srt, of ?P]
  show ?thesis by (simp add: take_rank drop_rank sorted_wrt_append)
qed

lemma RandomHeight_ge: "h \<le> fst (RandomHeight h s)"
proof (induction h s rule: RandomHeight.induct)
  case (1 h s)
  show ?case
  proof (cases "h < kMaxHeight \<and> FastRand s AND 3 = 0")
    case True
    with 1[of "FastRand s"] have "Suc h \<le> fst (RandomHeight (Suc h) (FastRand s))" by simp
    with True show ?thesis by (subst RandomHeight.simps) (simp add: Let_def)
  next
    case False
    then show ?thesis by (subst RandomHeight.simps) (auto simp: Let_def)
  qed
qed

lemma chain_sorted_update:
  assumes "chain_sorted ns" "j < length ns" "sn_ikey n = sn_ikey (ns ! j)"
  shows "chain_sorted (ns[j := n])"
proof -
  have "map sn_ikey (ns[j := n]) = map sn_ikey ns"
    using assms(2,3) by (simp add: map_update list_update_same_conv)
  moreover have "\<And>xs. chain_sorted xs = sorted_wrt ikey_less (map sn_ikey xs)"
    by (simp add: sorted_wrt_map)
  ultimately show ?thesis using assms(1) by simp
qed

lemma mt_inv_Insert:
  assumes inv: "mt_inv mt"
  shows "mt_inv (Insert mt ikey v)"
proof -
  let ?ns = "sl_nodes mt"
  let ?r = "rank ikey ?ns"
  from inv have srt: "chain_sorted ?ns" and tall: "list_all (\<lambda>n. 0 < sn_height n) ?ns"
    and mh: "0 < max_height mt" by (auto simp: mt_inv_def)
  have p: "descend ?ns ikey (max_height mt) 0 = ?r" by (rule search_lands_at_rank[OF inv])
  have nx: "next_at ?ns 0 ?r = (if ?r < length ?ns then Some (Suc ?r) else None)"
    by (rule next_at_level0[OF tall])
  obtain h s' where rh: "RandomHeight (Suc 0) (rng_state mt) = (h, s')"
    by (cases "RandomHeight (Suc 0) (rng_state mt)")
  with RandomHeight_ge[of "Suc 0" "rng_state mt"] have h: "0 < h" by simp
  let ?new = "\<lparr>sn_ikey = ikey, sn_value = v, sn_height = h\<rparr>"
  let ?ins = "mt\<lparr>sl_nodes := take ?r ?ns @ ?new # drop ?r ?ns,
                 max_height := max (max_height mt) h, rng_state := s'\<rparr>"
  have tall': "list_all (\<lambda>n. 0 < sn_height n) (take ?r ?ns @ ?new # drop ?r ?ns)"
    using tall h by (auto simp: list_all_iff dest: in_set_takeD in_set_dropD)
  show ?thesis
  proof (cases "?r < length ?ns \<and> ikey_eq (sn_ikey (?ns ! ?r)) ikey")
    case True
    then have "Insert mt ikey v = mt\<lparr>sl_nodes := ?ns[?r := (?ns ! ?r)\<lparr>sn_value := v\<rparr>]\<rparr>"
      by (simp add: Insert_def Let_def p nx node_at_def)
    moreover have "chain_sorted (?ns[?r := (?ns ! ?r)\<lparr>sn_value := v\<rparr>])"
      using True srt by (intro chain_sorted_update) simp_all
    moreover have "list_all (\<lambda>n. 0 < sn_height n) (?ns[?r := (?ns ! ?r)\<lparr>sn_value := v\<rparr>])"
      using tall True by (auto simp: list_all_iff set_conv_nth nth_list_update)
    ultimately show ?thesis using mh by (simp add: mt_inv_def)
  next
    case False
    then have ins: "Insert mt ikey v = ?ins"
      by (auto simp: Insert_def Let_def p nx node_at_def rh)
    have "chain_sorted (take ?r ?ns @ ?new # drop ?r ?ns)"
    proof (rule sorted_insert_at_rank[OF srt])
      show "sn_ikey ?new = ikey" by simp
    next
      fix y rest assume d: "dropWhile (below ikey) ?ns = y # rest"
      then have "?r < length ?ns" by (metis drop_rank drop_eq_Nil linorder_not_le list.distinct(1))
      moreover have "?ns ! ?r = y" using d by (metis drop_rank nth_via_drop)
      ultimately show "\<not> ikey_eq (sn_ikey y) ikey" using False by simp
    qed
    with tall' mh show ?thesis by (simp add: ins mt_inv_def)
  qed
qed

lemma mt_inv_new: "mt_inv MemTable_new"
  by (simp add: mt_inv_def MemTable_new_def)

lemma mt_inv_apply: "mt_inv mt \<Longrightarrow> mt_inv (mt_apply mt op)"
proof (cases op)
  case (Put k v seq)
  assume "mt_inv mt"
  from mt_inv_Insert[OF this] show ?thesis
    by (simp add: Put mt_Put_def Let_def mt_inv_def)
next
  case (Delete k seq)
  assume "mt_inv mt"
  from mt_inv_Insert[OF this] show ?thesis
    by (simp add: Delete mt_Delete_def Let_def mt_inv_def)
qed

lemma mt_inv_foldl: "mt_inv mt \<Longrightarrow> mt_inv (foldl mt_apply mt ops)"
  by (induction ops arbitrary: mt) (simp_all add: mt_inv_apply)

lemma mt_inv_run: "mt_inv (mt_run ops)"
  by (simp add: mt_run_def mt_inv_foldl mt_inv_new)

definition probe :: "string \<Rightarrow> InternalKey" where
  "probe k = \<lparr>ik_key = k, ik_sequence = - 1, ik_type = kValue\<rparr>"

lemma below_probe: "below (probe k) n \<longleftrightarrow> ik_key (sn_ikey n) < k"
proof -
  have "\<not> (- 1 :: 64 word) < ik_sequence (sn_ikey n)"
    by simp
  then show ?thesis by (auto simp: ikey_less_def probe_def)
qed

text \<open>
  Claim C6. In a memtable that satisfies the invariant (every table built from the empty
  one by \<open>Put\<close> and \<open>Delete\<close> does), \<open>Get(K)\<close> reports \<open>found = false\<close> when no entry is
  stored for \<open>K\<close>; otherwise it returns an entry of \<open>K\<close> whose sequence number is the
  largest among the entries of \<open>K\<close>, with that entry's value, and \<open>deleted\<close> is true
  exactly when that entry is a deletion marker.
\<close>

theorem mt_Get_returns_newest:
  assumes inv: "mt_inv mt"
  shows "if entries_for mt k = []
         then mt_Get mt k = \<lparr>lk_found = False, lk_value = [], lk_deleted = False\<rparr>
         else (\<exists>n. newest_for mt k n \<and>
                 mt_Get mt k = \<lparr>lk_found = True, lk_value = sn_value n,
                                lk_deleted = (ik_type (sn_ikey n) = kDeletion)\<rparr>)"
proof -
  let ?ns = "sl_nodes mt"
  let ?P = "below (probe k)"
  let ?r = "rank (probe k) ?ns"
  let ?none = "\<lparr>lk_found = False, lk_value = [], lk_deleted = False\<rparr>"
  from inv have srt: "chain_sorted ?ns" and tall: "list_all (\<lambda>n. 0 < sn_height n) ?ns"
    by (auto simp: mt_inv_def)
  have p: "descend ?ns (probe k) (max_height mt) 0 = ?r" by (rule search_lands_at_rank[OF inv])
  have nx: "next_at ?ns 0 ?r = (if ?r < length ?ns then Some (Suc ?r) else None)"
    by (rule next_at_level0[OF tall])
  have get: "mt_Get mt k =
     (if ?r < length ?ns \<and> ik_key (sn_ikey (?ns ! ?r)) = k
      then \<lparr>lk_found = True, lk_value = sn_value (?ns ! ?r),
            lk_deleted = (ik_type (sn_ikey (?ns ! ?r)) = kDeletion)\<rparr>
      else ?none)"
    using p nx by (simp add: mt_Get_def Let_def node_at_def probe_def[symmetric])
  have front: "filter (\<lambda>n. ik_key (sn_ikey n) = k) (takeWhile ?P ?ns) = []"
    by (auto simp: filter_empty_conv below_probe dest: set_takeWhileD)
  have "entries_for mt k = filter (\<lambda>n. ik_key (sn_ikey n) = k) (takeWhile ?P ?ns @ dropWhile ?P ?ns)"
    by (simp add: entries_for_def)
  then have ent: "entries_for mt k = filter (\<lambda>n. ik_key (sn_ikey n) = k) (dropWhile ?P ?ns)"
    unfolding filter_append front by simp
  show ?thesis
  proof (cases "dropWhile ?P ?ns")
    case Nil
    then have "\<not> ?r < length ?ns" by (metis drop_rank drop_eq_Nil linorder_not_le)
    with get ent Nil show ?thesis by simp
  next
    case (Cons y0 rest)
    then have rl: "?r < length ?ns" by (metis drop_rank drop_eq_Nil linorder_not_le list.distinct(1))
    have y0: "?ns ! ?r = y0" using Cons by (metis drop_rank nth_via_drop)
    have nb: "\<not> ik_key (sn_ikey y0) < k"
      using Cons by (metis below_probe hd_dropWhile list.distinct(1) list.sel(1))
    from chain_sorted_drop[OF srt, of ?P] Cons
    have after: "\<forall>y \<in> set rest. ikey_less (sn_ikey y0) (sn_ikey y)" by simp
    show ?thesis
    proof (cases "ik_key (sn_ikey y0) = k")
      case True
      have "\<forall>n' \<in> set (entries_for mt k). ik_sequence (sn_ikey n') \<le> ik_sequence (sn_ikey y0)"
      proof
        fix n' assume "n' \<in> set (entries_for mt k)"
        then have n': "n' \<in> set (y0 # rest)" "ik_key (sn_ikey n') = k"
          using True by (auto simp: ent Cons)
        show "ik_sequence (sn_ikey n') \<le> ik_sequence (sn_ikey y0)"
        proof (cases "n' = y0")
          case False
          with n' after have "ikey_less (sn_ikey y0) (sn_ikey n')" by simp
          with n'(2) True show ?thesis by (simp add: ikey_less_def)
        qed simp
      qed
      moreover have "y0 \<in> set (entries_for mt k)" using True by (simp add: ent Cons)
      ultimately have "newest_for mt k y0" by (simp add: newest_for_def)
      moreover have "entries_for mt k \<noteq> []" using True by (simp add: ent Cons)
      ultimately show ?thesis using get rl y0 True by auto
    next
      case False
      with nb have gt: "k < ik_key (sn_ikey y0)" by simp
      have "\<forall>y \<in> set rest. ik_key (sn_ikey y) \<noteq> k"
      proof
        fix y assume "y \<in> set rest"
        with after have "ikey_less (sn_ikey y0) (sn_ikey y)" by simp
        then have "ik_key (sn_ikey y0) \<le> ik_key (sn_ikey y)"
          by (auto simp: ikey_less_def split: if_splits)
        with gt show "ik_key (sn_ikey y) \<noteq> k" by auto
      qed
      then have "entries_for mt k = []" using False by (simp add: ent Cons filter_empty_conv)
      with get y0 False show ?thesis by simp
    qed
  qed
qed

text \<open>
  The table after \<open>Put(b, 1, 0); Put(a, 2, 1); Delete(a, 2); Put(b, 3, 3)\<close>: two versions
  of each key, the newest of \<open>a\<close> a tombstone.
\<close>

definition demo_table :: MemTable where
  "demo_table = \<lparr>sl_nodes =
     [\<lparr>sn_ikey = \<lparr>ik_key = ''a'', ik_sequence = 2, ik_type = kDeletion\<rparr>,
       sn_value = [], sn_height = 2\<rparr>,
      \<lparr>sn_ikey = \<lparr>ik_key = ''a'', ik_sequence = 1, ik_type = kValue\<rparr>,
       sn_value = ''2'', sn_height = 3\<rparr>,
      \<lparr>sn_ikey = \<lparr>ik_key = ''b'', ik_sequence = 3, ik_type = kValue\<rparr>,
       sn_value = ''3'', sn_height = 1\<rparr>,
      \<lparr>sn_ikey = \<lparr>ik_key = ''b'', ik_sequence = 0, ik_type = kValue\<rparr>,
       sn_value = ''1'', sn_height = 3\<rparr>],
     max_height = 3, approx_size = 135, entry_count = 4, rng_state = 3120216979\<rparr>"

theorem mt_Get_returns_newest_witness:
  "mt_inv demo_table \<and> entries_for demo_table ''a'' \<noteq> [] \<and>
   (\<exists>n. newest_for demo_table ''a'' n \<and>
        mt_Get demo_table ''a'' = \<lparr>lk_found = True, lk_value = sn_value n,
                                     lk_deleted = (ik_type (sn_ikey n) = kDeletion)\<rparr>)"
proof -
  have inv: "mt_inv demo_table" by (simp add: mt_inv_def demo_table_def ikey_less_def)
  have ne: "entries_for demo_table ''a'' \<noteq> []" by (simp add: entries_for_def demo_table_def)
  from mt_Get_returns_newest[OF inv, of "''a''"] ne
  have "\<exists>n. newest_for demo_table ''a'' n \<and>
        mt_Get demo_table ''a'' = \<lparr>lk_found = True, lk_value = sn_value n,
                                     lk_deleted = (ik_type (sn_ikey n) = kDeletion)\<rparr>"
    by simp
  with inv ne show ?thesis by blast
qed

section \<open>Raft log and node (include/raft/raft_log.h, raft/raft_node.h)\<close>

record LogEntry =
  le_term :: "64 word"
  le_index :: "64 word"
  le_command :: string

text \<open>
  \<open>RaftLog\<close>: the persistent state and the entries in memory. The log also appends every
  entry to \<open>raft_log.dat\<close>; the file is read by the constructor only and is left out.
\<close>

record RaftLog =
  current_term :: "64 word"
  voted_for :: int
  entries :: "LogEntry list"

text \<open>
  The repository holds two versions of \<open>raft_log.h\<close>. In the one that has
  \<open>CompactBefore\<close>, \<open>GetEntry\<close> and \<open>TermAt\<close> search the entries for the index and
  \<open>MatchesAt\<close> takes an entry it does not find for a compacted one; in the other one they
  read \<open>entries_[index - 1]\<close>. The first argument of the three functions says which
  version the node is built with. Everything else is the same in both.
\<close>

datatype raft_log_h = Searching | Positional

definition RaftLog_empty :: RaftLog where
  "RaftLog_empty = \<lparr>current_term = 0, voted_for = - 1, entries = []\<rparr>"

definition CurrentTerm :: "RaftLog \<Rightarrow> 64 word" where
  "CurrentTerm l = current_term l"

definition SetTerm :: "RaftLog \<Rightarrow> 64 word \<Rightarrow> RaftLog" where
  "SetTerm l t = l\<lparr>current_term := t, voted_for := - 1\<rparr>"

definition LastIndex :: "RaftLog \<Rightarrow> 64 word" where
  "LastIndex l = (if entries l = [] then 0 else le_index (last (entries l)))"

text \<open>\<open>GetEntry\<close>: \<open>false\<close> is \<open>None\<close>. The search returns the first entry with the index.\<close>

fun GetEntry :: "raft_log_h \<Rightarrow> RaftLog \<Rightarrow> 64 word \<Rightarrow> LogEntry option" where
  "GetEntry Searching l i = find (\<lambda>e. le_index e = i) (entries l)"
| "GetEntry Positional l i =
     (if i = 0 \<or> unat i > length (entries l) then None
      else Some (entries l ! (unat i - 1)))"

declare GetEntry.simps [simp del]

fun TermAt :: "raft_log_h \<Rightarrow> RaftLog \<Rightarrow> 64 word \<Rightarrow> 64 word" where
  "TermAt Searching l i =
     (if i = 0 then 0
      else case find (\<lambda>e. le_index e = i) (entries l) of
             Some e \<Rightarrow> le_term e
           | None \<Rightarrow> 0)"
| "TermAt Positional l i =
     (if i = 0 \<or> unat i > length (entries l) then 0
      else le_term (entries l ! (unat i - 1)))"

fun MatchesAt :: "raft_log_h \<Rightarrow> RaftLog \<Rightarrow> 64 word \<Rightarrow> 64 word \<Rightarrow> bool" where
  "MatchesAt Searching l i t =
     (if i = 0 then True
      else let t' = TermAt Searching l i in
           if t' = 0 then True else t' = t)"
| "MatchesAt Positional l i t =
     (if i = 0 then True else TermAt Positional l i = t)"

definition Append :: "RaftLog \<Rightarrow> LogEntry \<Rightarrow> RaftLog" where
  "Append l e = l\<lparr>entries := entries l @ [e]\<rparr>"

definition TruncateFrom :: "RaftLog \<Rightarrow> 64 word \<Rightarrow> RaftLog" where
  "TruncateFrom l i =
     (if i = 0 \<or> unat i > length (entries l) then l
      else l\<lparr>entries := take (unat i - 1) (entries l)\<rparr>)"

datatype RaftRole = Follower | Candidate | Leader

record AppendEntriesArgs =
  ae_term :: "64 word"
  ae_leader_id :: int
  prev_log_index :: "64 word"
  prev_log_term :: "64 word"
  ae_entries :: "LogEntry list"
  leader_commit :: "64 word"

record AppendEntriesReply =
  rp_term :: "64 word"
  success :: bool
  match_index :: "64 word"

text \<open>
  The fields of \<open>RaftNode\<close> that \<open>Propose\<close>, \<open>HandleAppendEntries\<close> and the applier read or
  write; the election timer, the peers' \<open>next_index_\<close> and \<open>match_index_\<close> and the
  transport are left out. \<open>apply_cb_\<close> is a \<open>std::function\<close> that may be empty;
  \<open>has_apply_cb\<close> says whether one is installed.
\<close>

record RaftNode =
  role :: RaftRole
  commit_index :: "64 word"
  last_applied :: "64 word"
  leader_id :: int
  votes_received :: int
  log :: RaftLog
  has_apply_cb :: bool

text \<open>The constructor, for a log as read from the data directory.\<close>

definition RaftNode_new :: "RaftLog \<Rightarrow> RaftNode" where
  "RaftNode_new l =
     \<lparr>role = Follower, commit_index = 0, last_applied = 0, leader_id = - 1,
      votes_received = 0, log = l, has_apply_cb = False\<rparr>"

definition SetApplyCallback :: "RaftNode \<Rightarrow> RaftNode" where
  "SetApplyCallback n = n\<lparr>has_apply_cb := True\<rparr>"

definition Propose :: "RaftNode \<Rightarrow> string \<Rightarrow> bool \<times> RaftNode" where
  "Propose n cmd =
     (if role n \<noteq> Leader then (False, n)
      else
        let entry = \<lparr>le_term = CurrentTerm (log n), le_index = LastIndex (log n) + 1,
                     le_command = cmd\<rparr>
        in (True, n\<lparr>log := Append (log n) entry\<rparr>))"

definition BecomeFollower :: "RaftNode \<Rightarrow> 64 word \<Rightarrow> RaftNode" where
  "BecomeFollower n t = n\<lparr>role := Follower, log := SetTerm (log n) t, votes_received := 0\<rparr>"

text \<open>
  The two loops of \<open>HandleAppendEntries\<close>: truncate at the first entry whose term
  conflicts with the log, then append the entries beyond the end of the log.
\<close>

fun truncate_conflict :: "raft_log_h \<Rightarrow> RaftLog \<Rightarrow> LogEntry list \<Rightarrow> RaftLog" where
  "truncate_conflict v l [] = l"
| "truncate_conflict v l (e # es) =
     (let existing_term = TermAt v l (le_index e) in
      if existing_term \<noteq> 0 \<and> existing_term \<noteq> le_term e
      then TruncateFrom l (le_index e)
      else truncate_conflict v l es)"

fun append_missing :: "RaftLog \<Rightarrow> LogEntry list \<Rightarrow> RaftLog" where
  "append_missing l [] = l"
| "append_missing l (e # es) =
     append_missing (if le_index e > LastIndex l then Append l e else l) es"

definition HandleAppendEntries ::
  "raft_log_h \<Rightarrow> RaftNode \<Rightarrow> AppendEntriesArgs \<Rightarrow> AppendEntriesReply \<times> RaftNode" where
  "HandleAppendEntries v n args =
     (let reply = \<lparr>rp_term = CurrentTerm (log n), success = False, match_index = 0\<rparr> in
      if ae_term args < CurrentTerm (log n) then (reply, n)
      else
        let n1 = (if ae_term args \<ge> CurrentTerm (log n) then BecomeFollower n (ae_term args) else n);
            n2 = n1\<lparr>leader_id := ae_leader_id args\<rparr>
        in
        if prev_log_index args > 0 \<and>
           \<not> MatchesAt v (log n2) (prev_log_index args) (prev_log_term args)
        then (reply, n2)
        else
          let l3 = (if ae_entries args \<noteq> []
                    then append_missing (truncate_conflict v (log n2) (ae_entries args))
                           (ae_entries args)
                    else log n2);
              n3 = n2\<lparr>log := l3\<rparr>;
              n4 = (if leader_commit args > commit_index n3
                    then n3\<lparr>commit_index := min (leader_commit args) (LastIndex (log n3))\<rparr>
                    else n3)
          in (\<lparr>rp_term = CurrentTerm (log n4), success = True,
               match_index = LastIndex (log n4)\<rparr>, n4))"

lemma applier_measure:
  fixes la ci :: "64 word"
  assumes "la < ci"
  shows "unat (ci - (la + 1)) < unat (ci - la)"
proof -
  from assms have a: "unat la < unat ci" by (simp add: word_less_nat_alt)
  have b: "unat ci < 2 ^ 64" using unsigned_less[of ci] by simp
  have c: "unat (la + 1) = unat la + 1" using a b by (simp add: unat_word_ariths)
  then have "la + 1 \<le> ci" using a by (simp add: word_le_nat_alt)
  then have d: "unat (ci - (la + 1)) = unat ci - unat (la + 1)" by (rule unat_sub)
  have e: "unat (ci - la) = unat ci - unat la" using assms by (simp add: unat_sub)
  show ?thesis using a c d e by simp
qed

text \<open>
  One wake-up of \<open>ApplierLoop\<close> under the lock:
  \<open>while (last_applied_ < commit_index_) { last_applied_++; ... apply_cb_(...) }\<close>.
  The second component collects the calls of the apply callback, \<open>(index, command)\<close>, in
  the order in which they are made.
\<close>

function apply_committed ::
  "raft_log_h \<Rightarrow> RaftNode \<Rightarrow> (64 word \<times> string) list \<Rightarrow> RaftNode \<times> (64 word \<times> string) list" where
  "apply_committed v n calls =
     (if last_applied n < commit_index n
      then
        let n' = n\<lparr>last_applied := last_applied n + 1\<rparr> in
        (case GetEntry v (log n') (last_applied n') of
           Some entry \<Rightarrow>
             if has_apply_cb n'
             then apply_committed v n' (calls @ [(le_index entry, le_command entry)])
             else apply_committed v n' calls
         | None \<Rightarrow> apply_committed v n' calls)
      else (n, calls))"
  by pat_completeness auto
termination
  by (relation "measure (\<lambda>(v, n, calls). unat (commit_index n - last_applied n))")
     (auto simp: applier_measure)

declare apply_committed.simps [simp del]

text \<open>
  The indices from \<open>last_applied + 1\<close> up to \<open>commit_index\<close>, and the calls of the callback
  for a list of indices: one call for every index at which \<open>GetEntry\<close> finds an entry.
\<close>

definition committed_range :: "64 word \<Rightarrow> 64 word \<Rightarrow> 64 word list" where
  "committed_range la ci = map (\<lambda>j. la + of_nat j) [1..<Suc (unat (ci - la))]"

definition apply_calls :: "raft_log_h \<Rightarrow> RaftLog \<Rightarrow> 64 word list \<Rightarrow> (64 word \<times> string) list" where
  "apply_calls v l idxs =
     concat (map (\<lambda>i. case GetEntry v l i of
                          Some e \<Rightarrow> [(le_index e, le_command e)]
                        | None \<Rightarrow> []) idxs)"

text \<open>A log whose entries carry the indices 1, 2, 3, ... in this order.\<close>

definition indexed_from_one :: "RaftLog \<Rightarrow> bool" where
  "indexed_from_one l \<longleftrightarrow>
     map le_index (entries l) = map of_nat [1..<Suc (length (entries l))]"

subsection \<open>Proposals and the order of application\<close>

lemma committed_range_step:
  fixes la ci :: "64 word"
  assumes "la < ci"
  shows "committed_range la ci = (la + 1) # committed_range (la + 1) ci"
proof -
  from assms have a: "unat la < unat ci" by (simp add: word_less_nat_alt)
  have b: "unat ci < 2 ^ 64" using unsigned_less[of ci] by simp
  have c: "unat (la + 1) = unat la + 1" using a b by (simp add: unat_word_ariths)
  then have "la + 1 \<le> ci" using a by (simp add: word_le_nat_alt)
  then have d: "unat (ci - (la + 1)) = unat ci - unat (la + 1)" by (rule unat_sub)
  have e: "unat (ci - la) = unat ci - unat la" using assms by (simp add: unat_sub)
  from a c d e have f: "unat (ci - la) = Suc (unat (ci - (la + 1)))" by simp
  have "[1..<Suc (Suc (unat (ci - (la + 1))))] = 1 # map Suc [1..<Suc (unat (ci - (la + 1)))]"
    by (simp add: upt_conv_Cons map_Suc_upt del: upt_Suc)
  then show ?thesis
    by (simp add: committed_range_def f comp_def add.assoc del: upt_Suc)
qed

lemma committed_range_empty: "committed_range ci ci = []"
  by (simp add: committed_range_def)

lemma apply_committed_calls:
  "last_applied n \<le> commit_index n \<Longrightarrow>
   apply_committed v n calls =
     (n\<lparr>last_applied := commit_index n\<rparr>,
      calls @ (if has_apply_cb n
               then apply_calls v (log n) (committed_range (last_applied n) (commit_index n))
               else []))"
proof (induction "unat (commit_index n - last_applied n)" arbitrary: n calls rule: less_induct)
  case less
  show ?case
  proof (cases "last_applied n < commit_index n")
    case False
    with less.prems have "last_applied n = commit_index n" by simp
    then show ?thesis
      by (subst apply_committed.simps) (simp add: committed_range_empty apply_calls_def)
  next
    case True
    let ?n' = "n\<lparr>last_applied := last_applied n + 1\<rparr>"
    have le: "last_applied ?n' \<le> commit_index ?n'" using True by (simp add: inc_le)
    have m: "unat (commit_index ?n' - last_applied ?n') < unat (commit_index n - last_applied n)"
      using True by (simp add: applier_measure)
    note ih = less.hyps[OF m le]
    note step = committed_range_step[OF True]
    show ?thesis
    proof (cases "GetEntry v (log n) (last_applied n + 1)")
      case None
      then show ?thesis using True ih[of calls]
        by (subst apply_committed.simps) (simp add: Let_def step apply_calls_def)
    next
      case (Some e)
      then show ?thesis using True ih[of calls] ih[of "calls @ [(le_index e, le_command e)]"]
        by (subst apply_committed.simps) (simp add: Let_def step apply_calls_def)
    qed
  qed
qed

lemma GetEntry_index: "GetEntry Searching l i = Some e \<Longrightarrow> le_index e = i"
  by (auto simp: GetEntry.simps find_Some_iff)

lemma apply_calls_indices:
  "map fst (apply_calls Searching l idxs) = filter (\<lambda>i. GetEntry Searching l i \<noteq> None) idxs"
  by (induction idxs) (auto simp: apply_calls_def dest: GetEntry_index split: option.splits)

lemma committed_range_increasing:
  fixes la ci :: "64 word"
  assumes "la \<le> ci"
  shows "sorted_wrt (<) (committed_range la ci)"
proof -
  have b: "unat ci < 2 ^ 64" using unsigned_less[of ci] by simp
  have e: "unat (ci - la) = unat ci - unat la" using assms by (simp add: unat_sub)
  have u: "unat la \<le> unat ci" using assms by (simp add: word_le_nat_alt)
  have un: "\<And>j. j \<le> unat ci - unat la \<Longrightarrow> unat (la + of_nat j) = unat la + j"
    using b u by (simp add: unat_word_ariths unat_of_nat)
  have "sorted_wrt (\<lambda>a b. la + of_nat a < la + of_nat b) [1..<Suc (unat (ci - la))]"
  proof (rule sorted_wrt_mono_rel[of _ "(<)"])
    fix a b assume "a \<in> set [1..<Suc (unat (ci - la))]" "b \<in> set [1..<Suc (unat (ci - la))]" "a < b"
    then have "a \<le> unat ci - unat la" "b \<le> unat ci - unat la" using e by auto
    with un[of a] un[of b] \<open>a < b\<close> show "la + of_nat a < la + of_nat b"
      by (simp add: word_less_nat_alt)
  qed (simp del: upt_Suc)
  then show ?thesis by (simp add: committed_range_def sorted_wrt_map del: upt_Suc)
qed

lemma committed_range_set:
  fixes la ci :: "64 word"
  assumes "la \<le> ci"
  shows "set (committed_range la ci) = {i. la < i \<and> i \<le> ci}"
proof -
  have b: "unat ci < 2 ^ 64" using unsigned_less[of ci] by simp
  have e: "unat (ci - la) = unat ci - unat la" using assms by (simp add: unat_sub)
  have u: "unat la \<le> unat ci" using assms by (simp add: word_le_nat_alt)
  have un: "\<And>j. j \<le> unat ci - unat la \<Longrightarrow> unat (la + of_nat j) = unat la + j"
    using b u by (simp add: unat_word_ariths unat_of_nat)
  show ?thesis
  proof (intro set_eqI iffI)
    fix i assume "i \<in> set (committed_range la ci)"
    then obtain j where j: "1 \<le> j" "j \<le> unat ci - unat la" "i = la + of_nat j"
      by (auto simp: committed_range_def e simp del: upt_Suc)
    with un[of j] show "i \<in> {i. la < i \<and> i \<le> ci}"
      by (simp add: word_less_nat_alt word_le_nat_alt)
  next
    fix i assume "i \<in> {i. la < i \<and> i \<le> ci}"
    then have i: "unat la < unat i" "unat i \<le> unat ci"
      by (simp_all add: word_less_nat_alt word_le_nat_alt)
    let ?j = "unat i - unat la"
    have "unat (la + of_nat ?j) = unat i" using un[of ?j] i by simp
    then have "i = la + of_nat ?j" by (simp add: word_unat_eq_iff)
    moreover have "?j \<in> set [1..<Suc (unat (ci - la))]" using i e by auto
    ultimately show "i \<in> set (committed_range la ci)"
      unfolding committed_range_def by (metis (no_types, lifting) image_eqI set_map)
  qed
qed

lemma GetEntry_present: "e \<in> set (entries l) \<Longrightarrow> GetEntry Searching l (le_index e) \<noteq> None"
  by (auto simp: GetEntry.simps find_None_iff)

lemma GetEntry_versions_agree:
  assumes c: "indexed_from_one l" and len: "length (entries l) < 2 ^ 64"
  shows "GetEntry Positional l i = GetEntry Searching l i"
proof -
  let ?es = "entries l"
  have idx: "\<And>p. p < length ?es \<Longrightarrow> le_index (?es ! p) = of_nat (Suc p)"
  proof -
    fix p assume p: "p < length ?es"
    then have "le_index (?es ! p) = map le_index ?es ! p" by simp
    also have "\<dots> = map of_nat [1..<Suc (length ?es)] ! p" using c by (simp add: indexed_from_one_def)
    also have "\<dots> = of_nat (Suc p)" using p by (simp del: upt_Suc)
    finally show "le_index (?es ! p) = of_nat (Suc p)" .
  qed
  have eq: "\<And>p. p < length ?es \<Longrightarrow> le_index (?es ! p) = i \<longleftrightarrow> Suc p = unat i"
  proof -
    fix p assume p: "p < length ?es"
    then have "Suc p < 2 ^ 64" using len by simp
    then have "unat (of_nat (Suc p) :: 64 word) = Suc p" by (simp add: unat_of_nat del: of_nat_Suc)
    then show "le_index (?es ! p) = i \<longleftrightarrow> Suc p = unat i"
      using idx[OF p] by (auto simp: word_unat_eq_iff simp del: of_nat_Suc)
  qed
  show ?thesis
  proof (cases "i = 0 \<or> unat i > length ?es")
    case True
    then have "\<forall>p < length ?es. le_index (?es ! p) \<noteq> i" using eq by (auto simp: unat_eq_0)
    then have "find (\<lambda>e. le_index e = i) ?es = None"
      by (auto simp: find_None_iff in_set_conv_nth)
    with True show ?thesis by (simp add: GetEntry.simps)
  next
    case False
    then have i: "0 < unat i" "unat i \<le> length ?es" by (auto simp: unat_gt_0)
    let ?p = "unat i - 1"
    have p: "?p < length ?es" "Suc ?p = unat i" using i by auto
    have "find (\<lambda>e. le_index e = i) ?es = Some (?es ! ?p)"
      unfolding find_Some_iff
    proof (intro exI[of _ ?p] conjI allI impI)
      show "?p < length ?es" by (rule p(1))
      show "le_index (?es ! ?p) = i" using eq[OF p(1)] p(2) by simp
      show "?es ! ?p = ?es ! ?p" ..
      fix j assume "j < ?p"
      then show "\<not> le_index (?es ! j) = i" using eq[of j] p by simp
    qed
    with False show ?thesis by (simp add: GetEntry.simps)
  qed
qed

lemma apply_calls_versions_agree:
  assumes "indexed_from_one l" "length (entries l) < 2 ^ 64"
  shows "apply_calls Positional l idxs = apply_calls Searching l idxs"
  by (simp add: apply_calls_def GetEntry_versions_agree[OF assms])

lemma apply_calls_searching:
  assumes "la \<le> ci"
  shows "map fst (apply_calls Searching l (committed_range la ci)) =
           filter (\<lambda>i. GetEntry Searching l i \<noteq> None) (committed_range la ci) \<and>
         sorted_wrt (<) (map fst (apply_calls Searching l (committed_range la ci))) \<and>
         (\<forall>e \<in> set (entries l). la < le_index e \<and> le_index e \<le> ci \<longrightarrow>
            le_index e \<in> set (map fst (apply_calls Searching l (committed_range la ci))))"
proof -
  let ?r = "committed_range la ci"
  have idx: "map fst (apply_calls Searching l ?r) = filter (\<lambda>i. GetEntry Searching l i \<noteq> None) ?r"
    by (rule apply_calls_indices)
  have srt: "sorted_wrt (<) (map fst (apply_calls Searching l ?r))"
    unfolding idx using assms by (intro sorted_wrt_filter committed_range_increasing)
  have all: "\<forall>e \<in> set (entries l). la < le_index e \<and> le_index e \<le> ci \<longrightarrow>
            le_index e \<in> set (map fst (apply_calls Searching l ?r))"
    unfolding idx using assms by (auto simp: committed_range_set dest: GetEntry_present)
  from idx srt all show ?thesis by blast
qed

text \<open>
  Claim C9. \<open>Propose\<close> on a node that is not the leader returns false and changes
  nothing; on the leader it returns true and appends the entry with the next index. One
  run of the applier moves \<open>last_applied\<close> to \<open>commit_index\<close>, one index at a time, and
  changes nothing else. With a callback installed it makes one call for every index from
  \<open>last_applied + 1\<close> to \<open>commit_index\<close> at which \<open>GetEntry\<close> finds an entry, in this
  order, and no call for an index at which it finds none; without a callback it makes no
  call. With the searching \<open>GetEntry\<close>, and with the positional one on a log whose entries
  carry the indices 1, 2, 3, ..., the indices passed to the callback are the indices of the
  range that have an entry in the log, in strictly increasing order, and every log entry
  with an index in the range is among them.
\<close>

theorem raft_propose_and_apply_order:
  "(role n \<noteq> Leader \<longrightarrow> Propose n cmd = (False, n)) \<and>
   (role n = Leader \<longrightarrow>
      (\<exists>n'. Propose n cmd = (True, n') \<and>
            entries (log n') = entries (log n) @
              [\<lparr>le_term = CurrentTerm (log n), le_index = LastIndex (log n) + 1, le_command = cmd\<rparr>])) \<and>
   (last_applied n \<le> commit_index n \<longrightarrow>
      (\<exists>n' calls. apply_committed v n [] = (n', calls) \<and>
          n' = n\<lparr>last_applied := commit_index n\<rparr> \<and>
          calls = (if has_apply_cb n
                   then apply_calls v (log n) (committed_range (last_applied n) (commit_index n))
                   else []) \<and>
          (v = Searching \<or> indexed_from_one (log n) \<and> length (entries (log n)) < 2 ^ 64 \<longrightarrow>
             map fst (apply_calls v (log n) (committed_range (last_applied n) (commit_index n))) =
               filter (\<lambda>i. GetEntry v (log n) i \<noteq> None)
                 (committed_range (last_applied n) (commit_index n)) \<and>
             sorted_wrt (<)
               (map fst (apply_calls v (log n) (committed_range (last_applied n) (commit_index n)))) \<and>
             (\<forall>e \<in> set (entries (log n)).
                last_applied n < le_index e \<and> le_index e \<le> commit_index n \<longrightarrow>
                le_index e \<in> set (map fst
                  (apply_calls v (log n) (committed_range (last_applied n) (commit_index n))))))))"
proof (intro conjI impI)
  assume "role n \<noteq> Leader"
  then show "Propose n cmd = (False, n)" by (simp add: Propose_def)
next
  assume "role n = Leader"
  then show "\<exists>n'. Propose n cmd = (True, n') \<and>
            entries (log n') = entries (log n) @
              [\<lparr>le_term = CurrentTerm (log n), le_index = LastIndex (log n) + 1, le_command = cmd\<rparr>]"
    by (simp add: Propose_def Let_def Append_def)
next
  assume a: "last_applied n \<le> commit_index n"
  let ?r = "committed_range (last_applied n) (commit_index n)"
  let ?calls = "if has_apply_cb n then apply_calls v (log n) ?r else []"
  have run: "apply_committed v n [] = (n\<lparr>last_applied := commit_index n\<rparr>, ?calls)"
    using a apply_committed_calls[of n v "[]"] by simp
  have ord: "v = Searching \<or> indexed_from_one (log n) \<and> length (entries (log n)) < 2 ^ 64 \<longrightarrow>
             map fst (apply_calls v (log n) ?r) = filter (\<lambda>i. GetEntry v (log n) i \<noteq> None) ?r \<and>
             sorted_wrt (<) (map fst (apply_calls v (log n) ?r)) \<and>
             (\<forall>e \<in> set (entries (log n)).
                last_applied n < le_index e \<and> le_index e \<le> commit_index n \<longrightarrow>
                le_index e \<in> set (map fst (apply_calls v (log n) ?r)))"
  proof
    assume h: "v = Searching \<or> indexed_from_one (log n) \<and> length (entries (log n)) < 2 ^ 64"
    have "apply_calls v (log n) ?r = apply_calls Searching (log n) ?r \<and>
          GetEntry v (log n) = GetEntry Searching (log n)"
    proof (cases v)
      case Searching then show ?thesis by simp
    next
      case Positional
      with h have i: "indexed_from_one (log n)" "length (entries (log n)) < 2 ^ 64" by auto
      show ?thesis unfolding Positional
        using apply_calls_versions_agree[OF i] GetEntry_versions_agree[OF i] by auto
    qed
    then have e1: "apply_calls v (log n) ?r = apply_calls Searching (log n) ?r"
      and e2: "GetEntry v (log n) = GetEntry Searching (log n)" by blast+
    show "map fst (apply_calls v (log n) ?r) = filter (\<lambda>i. GetEntry v (log n) i \<noteq> None) ?r \<and>
          sorted_wrt (<) (map fst (apply_calls v (log n) ?r)) \<and>
          (\<forall>e \<in> set (entries (log n)).
             last_applied n < le_index e \<and> le_index e \<le> commit_index n \<longrightarrow>
             le_index e \<in> set (map fst (apply_calls v (log n) ?r)))"
      unfolding e1 e2 by (rule apply_calls_searching[OF a])
  qed
  from run ord
  show "\<exists>n' calls. apply_committed v n [] = (n', calls) \<and>
          n' = n\<lparr>last_applied := commit_index n\<rparr> \<and>
          calls = ?calls \<and>
          (v = Searching \<or> indexed_from_one (log n) \<and> length (entries (log n)) < 2 ^ 64 \<longrightarrow>
             map fst (apply_calls v (log n) ?r) = filter (\<lambda>i. GetEntry v (log n) i \<noteq> None) ?r \<and>
             sorted_wrt (<) (map fst (apply_calls v (log n) ?r)) \<and>
             (\<forall>e \<in> set (entries (log n)).
                last_applied n < le_index e \<and> le_index e \<le> commit_index n \<longrightarrow>
                le_index e \<in> set (map fst (apply_calls v (log n) ?r))))"
    by (intro exI[of _ "n\<lparr>last_applied := commit_index n\<rparr>"] exI[of _ ?calls] conjI)
       (assumption | rule refl)+
qed

text \<open>
  A node with three log entries, the first already applied and all three committed; and a
  node whose log holds the entries 1 and 3 only, with four indices committed.
\<close>

definition demo_log :: RaftLog where
  "demo_log = \<lparr>current_term = 2, voted_for = 0, entries =
     [\<lparr>le_term = 1, le_index = 1, le_command = ''PUT a 1''\<rparr>,
      \<lparr>le_term = 1, le_index = 2, le_command = ''PUT b 2''\<rparr>,
      \<lparr>le_term = 2, le_index = 3, le_command = ''DEL a''\<rparr>]\<rparr>"

definition demo_node :: "RaftRole \<Rightarrow> RaftNode" where
  "demo_node r = \<lparr>role = r, commit_index = 3, last_applied = 1, leader_id = 0,
     votes_received = 0, log = demo_log, has_apply_cb = True\<rparr>"

definition gap_node :: RaftNode where
  "gap_node = \<lparr>role = Follower, commit_index = 4, last_applied = 0, leader_id = 0,
     votes_received = 0,
     log = \<lparr>current_term = 2, voted_for = 0, entries =
       [\<lparr>le_term = 1, le_index = 1, le_command = ''PUT a 1''\<rparr>,
        \<lparr>le_term = 2, le_index = 3, le_command = ''DEL a''\<rparr>]\<rparr>,
     has_apply_cb = True\<rparr>"

lemma demo_range: "committed_range (1 :: 64 word) 3 = [2, 3]"
  by (simp add: committed_range_def upt_conv_Cons)

lemma gap_range: "committed_range (0 :: 64 word) 4 = [1, 2, 3, 4]"
  by (simp add: committed_range_def upt_conv_Cons)

theorem raft_propose_and_apply_order_witness:
  "Propose (demo_node Follower) ''PUT c 3'' = (False, demo_node Follower) \<and>
   fst (Propose (demo_node Leader) ''PUT c 3'') \<and>
   map le_index (entries (log (snd (Propose (demo_node Leader) ''PUT c 3'')))) = [1, 2, 3, 4] \<and>
   indexed_from_one (log (demo_node Leader)) \<and>
   apply_committed Positional (demo_node Leader) [] =
     (demo_node Leader\<lparr>last_applied := 3\<rparr>, [(2, ''PUT b 2''), (3, ''DEL a'')]) \<and>
   apply_committed Searching gap_node [] =
     (gap_node\<lparr>last_applied := 4\<rparr>, [(1, ''PUT a 1''), (3, ''DEL a'')])"
proof -
  have f: "role (demo_node Follower) \<noteq> Leader" by (simp add: demo_node_def)
  have l: "role (demo_node Leader) = Leader" by (simp add: demo_node_def)
  have a: "last_applied (demo_node Leader) \<le> commit_index (demo_node Leader)"
    by (simp add: demo_node_def)
  have g: "last_applied gap_node \<le> commit_index gap_node" by (simp add: gap_node_def)
  have i: "indexed_from_one (log (demo_node Leader))"
    by (simp add: demo_node_def demo_log_def indexed_from_one_def upt_conv_Cons)
  have c: "apply_calls Positional (log (demo_node Leader))
             (committed_range (last_applied (demo_node Leader)) (commit_index (demo_node Leader)))
           = [(2, ''PUT b 2''), (3, ''DEL a'')]"
    by (simp add: demo_node_def demo_range apply_calls_def GetEntry.simps demo_log_def)
  have d: "apply_calls Searching (log gap_node)
             (committed_range (last_applied gap_node) (commit_index gap_node))
           = [(1, ''PUT a 1''), (3, ''DEL a'')]"
    by (simp add: gap_node_def gap_range apply_calls_def GetEntry.simps)
  from raft_propose_and_apply_order[of "demo_node Follower" "''PUT c 3''" Searching] f
  have 1: "Propose (demo_node Follower) ''PUT c 3'' = (False, demo_node Follower)" by blast
  from raft_propose_and_apply_order[of "demo_node Leader" "''PUT c 3''" Positional] l a
  obtain n' calls where 2: "Propose (demo_node Leader) ''PUT c 3'' = (True, n')"
    "entries (log n') = entries (log (demo_node Leader)) @
       [\<lparr>le_term = CurrentTerm (log (demo_node Leader)),
         le_index = LastIndex (log (demo_node Leader)) + 1, le_command = ''PUT c 3''\<rparr>]"
    and 3: "apply_committed Positional (demo_node Leader) [] =
         (demo_node Leader\<lparr>last_applied := commit_index (demo_node Leader)\<rparr>, calls)"
      "calls = (if has_apply_cb (demo_node Leader) then apply_calls Positional (log (demo_node Leader))
         (committed_range (last_applied (demo_node Leader)) (commit_index (demo_node Leader))) else [])"
    by blast
  from raft_propose_and_apply_order[of gap_node "''PUT c 3''" Searching] g
  obtain calls' where 4: "apply_committed Searching gap_node [] =
         (gap_node\<lparr>last_applied := commit_index gap_node\<rparr>, calls')"
      "calls' = (if has_apply_cb gap_node then apply_calls Searching (log gap_node)
         (committed_range (last_applied gap_node) (commit_index gap_node)) else [])"
    by blast
  have 5: "commit_index (demo_node Leader) = 3" "has_apply_cb (demo_node Leader)"
    "commit_index gap_node = 4" "has_apply_cb gap_node"
    by (simp_all add: demo_node_def gap_node_def)
  have 6: "map le_index (entries (log (snd (Propose (demo_node Leader) ''PUT c 3'')))) = [1, 2, 3, 4]"
    using 2 by (simp add: demo_node_def demo_log_def LastIndex_def)
  from 1 2(1) 6 i 3 4 c d 5 show ?thesis by simp
qed

text \<open>
  A follower with an empty log and a callback installed receives \<open>AppendEntries\<close> from a
  leader whose \<open>next_index\<close> for it is 6 (a new leader starts at its own last index plus
  one): \<open>prev_log_index\<close> 5, the entry 6, and \<open>leader_commit\<close> 6. The follower has no
  entry 5; \<open>TermAt\<close> returns 0 and \<open>MatchesAt\<close> takes the entry for compacted. The
  follower accepts, stores entry 6 alone and sets \<open>commit_index\<close> to 6. Its applier then
  calls the callback for index 6 only: the committed indices 1 to 5 are passed over and
  are never applied on this node.
\<close>

definition gap_args :: AppendEntriesArgs where
  "gap_args = \<lparr>ae_term = 1, ae_leader_id = 0, prev_log_index = 5, prev_log_term = 1,
     ae_entries = [\<lparr>le_term = 1, le_index = 6, le_command = ''PUT f 6''\<rparr>],
     leader_commit = 6\<rparr>"

definition gap_follower :: RaftNode where
  "gap_follower =
     \<lparr>role = Follower, commit_index = 6, last_applied = 0, leader_id = 0, votes_received = 0,
      log = \<lparr>current_term = 1, voted_for = - 1,
             entries = [\<lparr>le_term = 1, le_index = 6, le_command = ''PUT f 6''\<rparr>]\<rparr>,
      has_apply_cb = True\<rparr>"

lemma gap_follower_range: "committed_range (0 :: 64 word) 6 = [1, 2, 3, 4, 5, 6]"
  by (simp add: committed_range_def upt_conv_Cons)

theorem raft_follower_gap_counterexample:
  "HandleAppendEntries Searching (SetApplyCallback (RaftNode_new RaftLog_empty)) gap_args =
     (\<lparr>rp_term = 1, success = True, match_index = 6\<rparr>, gap_follower) \<and>
   apply_committed Searching gap_follower [] =
     (gap_follower\<lparr>last_applied := 6\<rparr>, [(6, ''PUT f 6'')])"
proof -
  have 1: "HandleAppendEntries Searching (SetApplyCallback (RaftNode_new RaftLog_empty)) gap_args =
     (\<lparr>rp_term = 1, success = True, match_index = 6\<rparr>, gap_follower)"
    by (simp add: HandleAppendEntries_def SetApplyCallback_def RaftNode_new_def RaftLog_empty_def
        gap_args_def gap_follower_def BecomeFollower_def SetTerm_def CurrentTerm_def Let_def
        LastIndex_def Append_def)
  have "last_applied gap_follower \<le> commit_index gap_follower" by (simp add: gap_follower_def)
  from apply_committed_calls[OF this, of Searching "[]"]
  have 2: "apply_committed Searching gap_follower [] =
     (gap_follower\<lparr>last_applied := 6\<rparr>, [(6, ''PUT f 6'')])"
    by (simp add: gap_follower_def gap_follower_range apply_calls_def GetEntry.simps)
  from 1 2 show ?thesis by simp
qed

section \<open>Byte encodings\<close>

text \<open>
  The files hold integers as the bytes of the machine representation, copied with
  \<open>memcpy\<close> or \<open>write\<close>; the layout is little-endian, as on the targets of the
  repository (x86-64, ARM64) and in the file formats of the specification. \<open>le_bytes n k\<close>
  are the \<open>k\<close> low bytes of \<open>n\<close>, the conversion to a \<open>k\<close>-byte unsigned integer included;
  \<open>le_nat\<close> reads such bytes back.
\<close>

fun le_bytes :: "nat \<Rightarrow> nat \<Rightarrow> string" where
  "le_bytes n 0 = []"
| "le_bytes n (Suc k) = char_of (n mod 256) # le_bytes (n div 256) k"

fun le_nat :: "string \<Rightarrow> nat" where
  "le_nat [] = 0"
| "le_nat (c # cs) = of_char c + 256 * le_nat cs"

section \<open>Write-ahead log (include/storage/wal.h)\<close>

text \<open>
  \<open>WALRecordType\<close> is an enumeration over \<open>uint8_t\<close>; the reader casts whatever byte it
  finds to it, so a type is a byte.
\<close>

type_synonym WALRecordType = "8 word"

definition kPut :: WALRecordType where "kPut = 1"
definition kDelete :: WALRecordType where "kDelete = 2"
definition kBatch :: WALRecordType where "kBatch = 3"

record WALRecord =
  wr_type :: WALRecordType
  wr_key :: string
  wr_value :: string
  wr_sequence :: "64 word"

definition Serialize :: "WALRecord \<Rightarrow> string" where
  "Serialize r =
     char_of (unat (wr_type r)) #
     le_bytes (unat (wr_sequence r)) 8 @
     le_bytes (length (wr_key r)) 4 @ wr_key r @
     le_bytes (length (wr_value r)) 4 @ wr_value r"

text \<open>The checksum, the same function in writer and reader, on 32-bit unsigned integers.\<close>

definition crc_step :: "32 word \<Rightarrow> char \<Rightarrow> 32 word" where
  "crc_step crc c = drop_bit 8 crc XOR ((crc XOR of_char c) * 0x01000193)"

definition ComputeCRC :: "string \<Rightarrow> 32 word" where
  "ComputeCRC s = foldl crc_step 0 s"

text \<open>
  The writer: whether the stream is open, the bytes that have reached the file, the bytes
  still in the buffer of the stream, and the counter. A write to an open stream succeeds
  (the disk does not fail in the model). \<open>WriteFrame\<close> writes \<open>length\<close> bytes of the
  payload, the size after its conversion to \<open>uint32_t\<close>.
\<close>

record WALWriter =
  wal_open :: bool
  wal_file :: string
  wal_pending :: string
  bytes_written :: nat

definition WALWriter_new :: "string \<Rightarrow> WALWriter" where
  "WALWriter_new existing = \<lparr>wal_open = True, wal_file = existing, wal_pending = [], bytes_written = 0\<rparr>"

definition WriteFrame :: "WALWriter \<Rightarrow> string \<Rightarrow> bool \<times> WALWriter" where
  "WriteFrame w payload =
     (if \<not> wal_open w then (False, w)
      else
        let len = length payload mod 2 ^ 32;
            crc = ComputeCRC payload
        in (True, w\<lparr>wal_pending := wal_pending w @ le_bytes (unat crc) 4 @ le_bytes len 4 @ take len payload,
                      bytes_written := bytes_written w + 8 + len\<rparr>))"

definition wal_Append :: "WALWriter \<Rightarrow> WALRecord \<Rightarrow> bool \<times> WALWriter" where
  "wal_Append w r = WriteFrame w (Serialize r)"

definition Sync :: "WALWriter \<Rightarrow> bool \<times> WALWriter" where
  "Sync w =
     (if \<not> wal_open w then (False, w)
      else (True, w\<lparr>wal_file := wal_file w @ wal_pending w, wal_pending := []\<rparr>))"

definition wal_Close :: "WALWriter \<Rightarrow> WALWriter" where
  "wal_Close w =
     (if wal_open w
      then w\<lparr>wal_open := False, wal_file := wal_file w @ wal_pending w, wal_pending := []\<rparr>
      else w)"

text \<open>\<open>append(r1); ...; append(rn)\<close> in order.\<close>

definition append_all :: "WALWriter \<Rightarrow> WALRecord list \<Rightarrow> WALWriter" where
  "append_all w rs = foldl (\<lambda>w r. snd (wal_Append w r)) w rs"

text \<open>
  \<open>Deserialize\<close> copies the fields out of the payload without a check of its size. On a
  payload too short for the field it reads beyond the buffer; that is the error
  \<open>Read_past_end\<close>. \<open>substr\<close> itself cuts the count at the end of the payload.
\<close>

datatype wal_error = Read_past_end

definition Deserialize :: "string \<Rightarrow> wal_error + WALRecord" where
  "Deserialize payload =
     (if length payload < 13 then Inl Read_past_end
      else
        let key_len = le_nat (take 4 (drop 9 payload));
            pos = 13 + key_len
        in if length payload < pos + 4 then Inl Read_past_end
           else
             let val_len = le_nat (take 4 (drop pos payload))
             in Inr \<lparr>wr_type = of_nat (of_char (hd payload)),
                     wr_key = take key_len (drop 13 payload),
                     wr_value = take val_len (drop (pos + 4) payload),
                     wr_sequence = of_nat (le_nat (take 8 (drop 1 payload)))\<rparr>)"

text \<open>
  The loop of \<open>Replay\<close> on the bytes of the file that are still unread, with the records
  handed to the callback so far. A read of more bytes than are left fails and ends the
  loop, as do a length of 0 or above 64 MiB and a checksum that does not match.
\<close>

function replay_loop :: "string \<Rightarrow> WALRecord list \<Rightarrow> wal_error + WALRecord list" where
  "replay_loop rest acc =
     (if length rest < 8 then Inr acc
      else
        let stored_crc = (of_nat (le_nat (take 4 rest)) :: 32 word);
            len = le_nat (take 4 (drop 4 rest))
        in if len = 0 \<or> 64 * 1024 * 1024 < len then Inr acc
           else if length (drop 8 rest) < len then Inr acc
           else
             let payload = take len (drop 8 rest)
             in if ComputeCRC payload \<noteq> stored_crc then Inr acc
                else (case Deserialize payload of
                        Inl e \<Rightarrow> Inl e
                      | Inr r \<Rightarrow> replay_loop (drop (8 + len) rest) (acc @ [r])))"
  by pat_completeness auto
termination
  by (relation "measure (\<lambda>(rest, acc). length rest)") auto

declare replay_loop.simps [simp del]

text \<open>\<open>Replay\<close>: the records handed to the callback, in order, and the count returned.\<close>

definition Replay :: "string \<Rightarrow> wal_error + (WALRecord list \<times> nat)" where
  "Replay file =
     (case replay_loop file [] of Inl e \<Rightarrow> Inl e | Inr rs \<Rightarrow> Inr (rs, length rs))"

text \<open>The file after \<open>append(r1); ...; append(rn); sync()\<close> on a fresh file.\<close>

definition written_file :: "WALRecord list \<Rightarrow> string" where
  "written_file rs = wal_file (snd (Sync (append_all (WALWriter_new []) rs)))"

definition payload_size :: "WALRecord \<Rightarrow> nat" where
  "payload_size r = 17 + length (wr_key r) + length (wr_value r)"

subsection \<open>Round trip of the log\<close>

lemma length_le_bytes [simp]: "length (le_bytes n k) = k"
  by (induction k arbitrary: n) auto

lemma le_nat_le_bytes: "n < 256 ^ k \<Longrightarrow> le_nat (le_bytes n k) = n"
proof (induction k arbitrary: n)
  case 0
  then show ?case by simp
next
  case (Suc k)
  then have "n div 256 < 256 ^ k" by (simp add: less_mult_imp_div_less mult.commute)
  with Suc.IH have "le_nat (le_bytes (n div 256) k) = n div 256" by simp
  then show ?case by simp
qed

lemma le_nat_le_bytes_mod: "le_nat (le_bytes n k) = n mod 256 ^ k"
proof (induction k arbitrary: n)
  case 0
  then show ?case by simp
next
  case (Suc k)
  show ?case using Suc.IH[of "n div 256"]
    by (simp add: mod_mult2_eq)
qed

text \<open>The bytes one record adds to the file: checksum, length, payload.\<close>

definition frame_of :: "WALRecord \<Rightarrow> string" where
  "frame_of r =
     le_bytes (unat (ComputeCRC (Serialize r))) 4 @
     le_bytes (length (Serialize r)) 4 @ Serialize r"

lemma drop_exact: "length xs = n \<Longrightarrow> drop n (xs @ ys) = ys"
  by simp

lemma take_exact: "length xs = n \<Longrightarrow> take n (xs @ ys) = xs"
  by simp

lemma length_Serialize: "length (Serialize r) = payload_size r"
  by (simp add: Serialize_def payload_size_def)

lemma Deserialize_Serialize:
  assumes "length (wr_key r) < 2 ^ 32" "length (wr_value r) < 2 ^ 32"
  shows "Deserialize (Serialize r) = Inr r"
proof -
  let ?S = "le_bytes (unat (wr_sequence r)) 8"
  let ?K = "le_bytes (length (wr_key r)) 4"
  let ?V = "le_bytes (length (wr_value r)) 4"
  let ?t = "char_of (unat (wr_type r))"
  have p: "Serialize r = ?t # ?S @ ?K @ wr_key r @ ?V @ wr_value r" by (simp add: Serialize_def)
  have k: "le_nat ?K = length (wr_key r)" using assms(1) by (simp add: le_nat_le_bytes)
  have v: "le_nat ?V = length (wr_value r)" using assms(2) by (simp add: le_nat_le_bytes)
  have "unat (wr_sequence r) < 2 ^ 64" using unsigned_less[of "wr_sequence r"] by simp
  then have s: "le_nat ?S = unat (wr_sequence r)" by (simp add: le_nat_le_bytes)
  have t: "(of_nat (unat (wr_type r) mod 256) :: 8 word) = wr_type r"
  proof -
    have "unat (wr_type r) < 256" using unsigned_less[of "wr_type r"] by simp
    then show ?thesis by simp
  qed
  have d9: "drop 9 (Serialize r) = ?K @ wr_key r @ ?V @ wr_value r" by (simp add: p)
  have d1: "take 8 (drop (Suc 0) (Serialize r)) = ?S" by (simp add: p)
  have d13: "drop 13 (Serialize r) = wr_key r @ ?V @ wr_value r" by (simp add: p)
  have dk: "drop (13 + length (wr_key r)) (Serialize r) = ?V @ wr_value r"
    using drop_exact[of "?t # ?S @ ?K @ wr_key r" "13 + length (wr_key r)" "?V @ wr_value r"]
    by (simp add: p)
  have dv: "drop (17 + length (wr_key r)) (Serialize r) = wr_value r"
    using drop_exact[of "?t # ?S @ ?K @ wr_key r @ ?V" "17 + length (wr_key r)" "wr_value r"]
    by (simp add: p)
  have h: "hd (Serialize r) = ?t" by (simp add: p)
  have len: "length (Serialize r) = 17 + length (wr_key r) + length (wr_value r)" by (simp add: p)
  show ?thesis
    by (simp add: Deserialize_def Let_def d9 k len dk v d13 dv d1 s h t)
qed

lemma replay_frame:
  assumes "payload_size r \<le> 64 * 1024 * 1024"
  shows "replay_loop (frame_of r @ rest) acc = replay_loop rest (acc @ [r])"
proof -
  let ?p = "Serialize r"
  let ?C = "le_bytes (unat (ComputeCRC ?p)) 4"
  let ?L = "le_bytes (length ?p) 4"
  have len: "length ?p = payload_size r" by (rule length_Serialize)
  have small: "length ?p < 256 ^ 4" using assms len by simp
  have kv: "length (wr_key r) < 2 ^ 32" "length (wr_value r) < 2 ^ 32"
    using assms by (simp_all add: payload_size_def)
  have l: "le_nat ?L = length ?p" using small by (rule le_nat_le_bytes)
  have "unat (ComputeCRC ?p) < 256 ^ 4" using unsigned_less[of "ComputeCRC ?p"] by simp
  then have c: "(of_nat (le_nat ?C) :: 32 word) = ComputeCRC ?p" by (simp add: le_nat_le_bytes)
  define buf where "buf = frame_of r @ rest"
  have f: "buf = ?C @ ?L @ ?p @ rest" by (simp add: buf_def frame_of_def)
  have t4: "take 4 buf = ?C" by (simp add: f)
  have t8: "take 4 (drop 4 buf) = ?L" by (simp add: f)
  have d8: "drop 8 buf = ?p @ rest" by (simp add: f)
  have dl: "drop (8 + length ?p) buf = rest"
    using drop_exact[of "?C @ ?L @ ?p" "8 + length ?p" rest] by (simp add: f)
  have tp: "take (length ?p) (?p @ rest) = ?p" by simp
  have pos: "0 < length ?p" by (simp add: len payload_size_def)
  have ge: "\<not> length buf < 8" by (simp add: f)
  have lim: "\<not> 64 * 1024 * 1024 < length ?p" using assms len by simp
  have "replay_loop buf acc = replay_loop rest (acc @ [r])"
    using pos lim
    by (subst replay_loop.simps)
       (simp only: ge t4 t8 d8 dl l c Let_def tp Deserialize_Serialize[OF kv], simp)
  then show ?thesis by (simp add: buf_def)
qed

lemma replay_frames:
  assumes "\<forall>r \<in> set rs. payload_size r \<le> 64 * 1024 * 1024"
  shows "replay_loop (concat (map frame_of rs)) acc = Inr (acc @ rs)"
  using assms
proof (induction rs arbitrary: acc)
  case Nil
  then show ?case by (subst replay_loop.simps) simp
next
  case (Cons r rs)
  then show ?case by (simp add: replay_frame)
qed

lemma WriteFrame_small:
  assumes "wal_open w" "length payload < 2 ^ 32"
  shows "WriteFrame w payload =
     (True, w\<lparr>wal_pending := wal_pending w @ le_bytes (unat (ComputeCRC payload)) 4 @
                 le_bytes (length payload) 4 @ payload,
              bytes_written := bytes_written w + 8 + length payload\<rparr>)"
  using assms by (simp add: WriteFrame_def Let_def)

lemma append_all_frames:
  assumes "wal_open w" "\<forall>r \<in> set rs. payload_size r < 2 ^ 32"
  shows "wal_open (append_all w rs) \<and> wal_file (append_all w rs) = wal_file w \<and>
         wal_pending (append_all w rs) = wal_pending w @ concat (map frame_of rs)"
  using assms
proof (induction rs arbitrary: w)
  case Nil
  then show ?case by (simp add: append_all_def)
next
  case (Cons r rs)
  have "length (Serialize r) < 2 ^ 32" using Cons.prems(2) by (simp add: length_Serialize)
  from WriteFrame_small[OF Cons.prems(1) this]
  have a: "snd (wal_Append w r) = w\<lparr>wal_pending := wal_pending w @ frame_of r,
              bytes_written := bytes_written w + 8 + length (Serialize r)\<rparr>"
    by (simp add: wal_Append_def frame_of_def)
  have "append_all w (r # rs) = append_all (snd (wal_Append w r)) rs" by (simp add: append_all_def)
  with Cons.IH[of "snd (wal_Append w r)"] Cons.prems a show ?case by simp
qed

lemma written_file_frames:
  assumes "\<forall>r \<in> set rs. payload_size r < 2 ^ 32"
  shows "written_file rs = concat (map frame_of rs)"
proof -
  from append_all_frames[OF _ assms, of "WALWriter_new []"]
  show ?thesis by (simp add: written_file_def Sync_def WALWriter_new_def)
qed

text \<open>
  Claim C3, for records within the limit of the reader. If the payload of every record
  (17 bytes and the key and the value) is at most 64 MiB, then \<open>Replay\<close> on the file
  written by \<open>append(r1); ...; append(rn); sync()\<close> on a fresh file hands exactly
  \<open>r1, ..., rn\<close> to the callback, in this order and with every field as written, and
  returns \<open>n\<close>.
\<close>

theorem wal_round_trip:
  assumes "\<forall>r \<in> set rs. payload_size r \<le> 64 * 1024 * 1024"
  shows "Replay (written_file rs) = Inr (rs, length rs)"
proof -
  from assms have "\<forall>r \<in> set rs. payload_size r < 2 ^ 32" by auto
  then have "written_file rs = concat (map frame_of rs)" by (rule written_file_frames)
  then show ?thesis using assms by (simp add: Replay_def replay_frames)
qed

theorem wal_round_trip_witness:
  "payload_size \<lparr>wr_type = kPut, wr_key = ''k'', wr_value = ''v'', wr_sequence = 0\<rparr> \<le> 64 * 1024 * 1024 \<and>
   payload_size \<lparr>wr_type = kDelete, wr_key = ''k'', wr_value = [], wr_sequence = 1\<rparr> \<le> 64 * 1024 * 1024 \<and>
   Replay (written_file [\<lparr>wr_type = kPut, wr_key = ''k'', wr_value = ''v'', wr_sequence = 0\<rparr>,
                         \<lparr>wr_type = kDelete, wr_key = ''k'', wr_value = [], wr_sequence = 1\<rparr>])
     = Inr ([\<lparr>wr_type = kPut, wr_key = ''k'', wr_value = ''v'', wr_sequence = 0\<rparr>,
             \<lparr>wr_type = kDelete, wr_key = ''k'', wr_value = [], wr_sequence = 1\<rparr>], 2)"
  using wal_round_trip[of "[\<lparr>wr_type = kPut, wr_key = ''k'', wr_value = ''v'', wr_sequence = 0\<rparr>,
                           \<lparr>wr_type = kDelete, wr_key = ''k'', wr_value = [], wr_sequence = 1\<rparr>]"]
  by (simp add: payload_size_def)

text \<open>
  Without the limit the claim fails. A Put record whose key has 67108848 bytes has a
  payload of 64 MiB + 1 byte; the writer writes it, and \<open>Replay\<close> stops at its length
  field, calls the callback for nothing and returns 0.
\<close>

definition big_record :: WALRecord where
  "big_record = \<lparr>wr_type = kPut, wr_key = replicate 67108848 (CHR ''a''), wr_value = [],
                  wr_sequence = 0\<rparr>"

lemma big_record_size: "payload_size big_record = 67108865"
  by (simp add: payload_size_def big_record_def)

theorem wal_big_record_counterexample:
  "Replay (written_file [big_record]) = Inr ([], 0)"
proof -
  let ?p = "Serialize big_record"
  let ?C = "le_bytes (unat (ComputeCRC ?p)) 4"
  let ?L = "le_bytes (length ?p) 4"
  have len: "length ?p = 67108865" by (simp add: length_Serialize big_record_size)
  have w: "written_file [big_record] = frame_of big_record"
    using written_file_frames[of "[big_record]"] by (simp add: big_record_size)
  define buf where "buf = frame_of big_record"
  have f: "buf = ?C @ ?L @ ?p" by (simp add: buf_def frame_of_def)
  have l: "le_nat ?L = 67108865" unfolding len by (rule le_nat_le_bytes) simp
  have t8: "take 4 (drop 4 buf) = ?L" by (simp add: f)
  have ge: "\<not> length buf < 8" by (simp add: f)
  have "replay_loop buf [] = Inr []"
    by (subst replay_loop.simps) (simp only: ge t8 l Let_def, simp)
  then show ?thesis by (simp add: Replay_def w buf_def)
qed

section \<open>SSTable (storage/sstable.h)\<close>

text \<open>
  What the code does outside the language's rules is an error of the model: a division
  by zero, an index outside a vector, a \<open>memcpy\<close> that reads beyond a string.
\<close>

datatype sst_error = Division_by_zero | Index_out_of_range | Buffer_overrun

subsection \<open>Bloom filter\<close>

text \<open>
  \<open>bits_\<close> is a vector of bytes, \<open>num_hashes_\<close> an \<open>int\<close>, \<open>num_bits_\<close> a \<open>size_t\<close>. The
  constructor computes \<open>OptimalHashes(0.01)\<close> in floating point:
  \<open>-log(0.01) / log(2) = 6.64...\<close>, cut to the \<open>int\<close> 6. The arithmetic of \<open>size_t\<close> is
  modulo \<open>2 ^ 64\<close>.
\<close>

record BloomFilter =
  bits :: "8 word list"
  num_bits :: nat
  num_hashes :: int

definition OptimalHashes_default :: int where
  "OptimalHashes_default = 6"

definition BloomFilter_new :: "nat \<Rightarrow> BloomFilter" where
  "BloomFilter_new num_keys =
     (let nbits = max 64 ((num_keys * 10) mod 2 ^ 64);
          bs = replicate (((nbits + 7) mod 2 ^ 64) div 8) (0 :: 8 word)
      in \<lparr>bits = bs, num_bits = (length bs * 8) mod 2 ^ 64, num_hashes = OptimalHashes_default\<rparr>)"

text \<open>The default constructor, used by the reader before \<open>Deserialize\<close>.\<close>

definition BloomFilter_empty :: BloomFilter where
  "BloomFilter_empty = \<lparr>bits = [], num_bits = 0, num_hashes = 7\<rparr>"

definition hash_step :: "64 word \<Rightarrow> char \<Rightarrow> 64 word" where
  "hash_step h c = (h XOR of_char c) * 0x100000001b3"

definition Hash :: "string \<Rightarrow> nat \<Rightarrow> 64 word" where
  "Hash k seed = foldl hash_step (of_nat seed * 0x9e3779b97f4a7c15) k"

text \<open>\<open>Hash(key, i) % num_bits_\<close>, for \<open>num_bits_\<close> that is not 0.\<close>

definition bit_index :: "BloomFilter \<Rightarrow> string \<Rightarrow> nat \<Rightarrow> nat" where
  "bit_index bf k i = unat (Hash k i) mod num_bits bf"

definition set_bit_at :: "8 word list \<Rightarrow> nat \<Rightarrow> 8 word list" where
  "set_bit_at bs h = bs[h div 8 := (bs ! (h div 8)) OR push_bit (h mod 8) 1]"

definition test_bit_at :: "8 word list \<Rightarrow> nat \<Rightarrow> bool" where
  "test_bit_at bs h \<longleftrightarrow> (bs ! (h div 8)) AND push_bit (h mod 8) 1 \<noteq> 0"

text \<open>
  The loops of \<open>Add\<close> and \<open>MayContain\<close>, \<open>i\<close> from 0 below \<open>num_hashes_\<close>. The code divides
  by \<open>num_bits_\<close> and indexes \<open>bits_\<close> without a check.
\<close>

fun add_loop :: "BloomFilter \<Rightarrow> string \<Rightarrow> nat list \<Rightarrow> 8 word list \<Rightarrow> sst_error + 8 word list" where
  "add_loop bf k [] bs = Inr bs"
| "add_loop bf k (i # js) bs =
     (if num_bits bf = 0 then Inl Division_by_zero
      else if length bs \<le> bit_index bf k i div 8 then Inl Index_out_of_range
      else add_loop bf k js (set_bit_at bs (bit_index bf k i)))"

definition bloom_Add :: "BloomFilter \<Rightarrow> string \<Rightarrow> sst_error + BloomFilter" where
  "bloom_Add bf k =
     (case add_loop bf k [0..<nat (num_hashes bf)] (bits bf) of
        Inl e \<Rightarrow> Inl e
      | Inr bs \<Rightarrow> Inr (bf\<lparr>bits := bs\<rparr>))"

fun contain_loop :: "BloomFilter \<Rightarrow> string \<Rightarrow> nat list \<Rightarrow> sst_error + bool" where
  "contain_loop bf k [] = Inr True"
| "contain_loop bf k (i # js) =
     (if num_bits bf = 0 then Inl Division_by_zero
      else if length (bits bf) \<le> bit_index bf k i div 8 then Inl Index_out_of_range
      else if \<not> test_bit_at (bits bf) (bit_index bf k i) then Inr False
      else contain_loop bf k js)"

definition MayContain :: "BloomFilter \<Rightarrow> string \<Rightarrow> sst_error + bool" where
  "MayContain bf k = contain_loop bf k [0..<nat (num_hashes bf)]"

definition byte_char :: "8 word \<Rightarrow> char" where
  "byte_char b = char_of (unat b)"

definition char_byte :: "char \<Rightarrow> 8 word" where
  "char_byte c = of_nat (of_char c)"

definition bloom_Serialize :: "BloomFilter \<Rightarrow> string" where
  "bloom_Serialize bf =
     le_bytes (nat (num_hashes bf mod 2 ^ 32)) 4 @
     le_bytes (length (bits bf)) 4 @
     take (length (bits bf) mod 2 ^ 32) (map byte_char (bits bf))"

text \<open>An \<open>int\<close> from its four bytes (two's complement).\<close>

definition le_int32 :: "string \<Rightarrow> int" where
  "le_int32 s = (let n = int (le_nat s) in if n < 2 ^ 31 then n else n - 2 ^ 32)"

text \<open>
  The decoding functions copy from \<open>data.data()\<close> without a look at the size of the
  string. The array of a \<open>std::string\<close> holds its characters and a terminating zero;
  \<open>buf_read d pos n\<close> are the \<open>n\<close> bytes from position \<open>pos\<close> of that array, and \<open>None\<close>
  when they are not all inside it.
\<close>

definition buf_read :: "string \<Rightarrow> nat \<Rightarrow> nat \<Rightarrow> string option" where
  "buf_read d pos n =
     (if pos + n \<le> length d + 1 then Some (take n (drop pos (d @ [CHR 0x00]))) else None)"

text \<open>In \<open>Deserialize\<close>, \<open>n * 8\<close> is a product of 32-bit unsigned integers.\<close>

definition bloom_Deserialize :: "string \<Rightarrow> sst_error + BloomFilter" where
  "bloom_Deserialize d =
     (case buf_read d 0 4 of
        None \<Rightarrow> Inl Buffer_overrun
      | Some nh_bytes \<Rightarrow>
          (case buf_read d 4 4 of
             None \<Rightarrow> Inl Buffer_overrun
           | Some n_bytes \<Rightarrow>
               (case buf_read d 8 (le_nat n_bytes) of
                  None \<Rightarrow> Inl Buffer_overrun
                | Some b \<Rightarrow>
                    Inr \<lparr>bits = map char_byte b,
                         num_bits = (le_nat n_bytes * 8) mod 2 ^ 32,
                         num_hashes = le_int32 nh_bytes\<rparr>)))"

subsection \<open>Footer\<close>

record BlockHandle =
  bh_offset :: nat
  bh_size :: nat

record Footer =
  index_handle :: BlockHandle
  meta_handle :: BlockHandle
  num_entries :: nat
  magic :: nat

definition kMagic :: nat where
  "kMagic = 0xDC5F00DA"

definition sizeof_Footer :: nat where
  "sizeof_Footer = 48"

text \<open>The footer is the struct copied byte by byte: six 64-bit fields in declaration order.\<close>

definition Footer_Serialize :: "Footer \<Rightarrow> string" where
  "Footer_Serialize f =
     le_bytes (bh_offset (index_handle f)) 8 @ le_bytes (bh_size (index_handle f)) 8 @
     le_bytes (bh_offset (meta_handle f)) 8 @ le_bytes (bh_size (meta_handle f)) 8 @
     le_bytes (num_entries f) 8 @ le_bytes (magic f) 8"

definition Footer_Deserialize :: "string \<Rightarrow> Footer" where
  "Footer_Deserialize d =
     \<lparr>index_handle = \<lparr>bh_offset = le_nat (take 8 d), bh_size = le_nat (take 8 (drop 8 d))\<rparr>,
      meta_handle = \<lparr>bh_offset = le_nat (take 8 (drop 16 d)), bh_size = le_nat (take 8 (drop 24 d))\<rparr>,
      num_entries = le_nat (take 8 (drop 32 d)),
      magic = le_nat (take 8 (drop 40 d))\<rparr>"

subsection \<open>Writer\<close>

text \<open>
  The writer keeps the pairs in the order of the calls of \<open>Add\<close>; its filter is built for
  1024 keys. \<open>Finish\<close> sorts with \<open>std::sort\<close> by \<open>a.key < b.key\<close>, the order of the bytes
  as unsigned characters with a prefix first. \<open>std::sort\<close> fixes the order of pairs with
  different keys only; the sort here keeps pairs with equal keys in the order of their
  addition. Offsets and sizes are 64-bit, lengths in the file 32-bit: the conversion is
  the cut of \<open>le_bytes\<close>, and \<open>current_offset_\<close> wraps at \<open>2 ^ 64\<close>. The writes to the
  file succeed.
\<close>

record SSTableWriter =
  sw_open :: bool
  sw_entries :: "(string \<times> string) list"
  sw_bloom :: BloomFilter
  sw_entry_count :: nat

definition SSTableWriter_new :: SSTableWriter where
  "SSTableWriter_new =
     \<lparr>sw_open = True, sw_entries = [], sw_bloom = BloomFilter_new 1024, sw_entry_count = 0\<rparr>"

definition sw_Add :: "SSTableWriter \<Rightarrow> string \<Rightarrow> string \<Rightarrow> sst_error + (bool \<times> SSTableWriter)" where
  "sw_Add w k v =
     (if \<not> sw_open w then Inr (False, w)
      else
        (case bloom_Add (sw_bloom w) k of
           Inl e \<Rightarrow> Inl e
         | Inr b \<Rightarrow>
             Inr (True, w\<lparr>sw_entries := sw_entries w @ [(k, v)],
                          sw_bloom := b,
                          sw_entry_count := (sw_entry_count w + 1) mod 2 ^ 64\<rparr>)))"

definition EncodeKV :: "string \<Rightarrow> string \<Rightarrow> string" where
  "EncodeKV k v = le_bytes (length k) 4 @ k @ le_bytes (length v) 4 @ v"

text \<open>Addition of 64-bit unsigned integers.\<close>

definition add_u64 :: "nat \<Rightarrow> nat \<Rightarrow> nat" where
  "add_u64 a b = (a + b) mod 2 ^ 64"

text \<open>
  The loop over the sorted entries: the bytes written so far, the offset, and the index
  entries (key and handle of its record).
\<close>

fun write_records ::
  "(string \<times> string) list \<Rightarrow> nat \<Rightarrow> string \<times> nat \<times> (string \<times> BlockHandle) list" where
  "write_records [] off = ([], off, [])"
| "write_records ((k, v) # es) off =
     (let record = EncodeKV k v in
      case write_records es (add_u64 off (length record)) of
        (bytes, off', idx) \<Rightarrow>
          (record @ bytes, off', (k, \<lparr>bh_offset = off, bh_size = length record\<rparr>) # idx))"

definition encode_index_entry :: "string \<times> BlockHandle \<Rightarrow> string" where
  "encode_index_entry e =
     le_bytes (length (fst e)) 4 @ fst e @
     le_bytes (bh_offset (snd e)) 8 @ le_bytes (bh_size (snd e)) 8"

definition EncodeIndex :: "(string \<times> BlockHandle) list \<Rightarrow> string" where
  "EncodeIndex idx = le_bytes (length idx) 4 @ concat (map encode_index_entry idx)"

text \<open>\<open>Finish\<close>: whether it succeeded, and the bytes of the file.\<close>

definition Finish :: "SSTableWriter \<Rightarrow> bool \<times> string" where
  "Finish w =
     (if \<not> sw_open w then (False, [])
      else
        (case write_records (sort_key fst (sw_entries w)) 0 of
           (data_bytes, off1, idx) \<Rightarrow>
             let index_data = EncodeIndex idx;
                 off2 = add_u64 off1 (length index_data);
                 bloom_data = bloom_Serialize (sw_bloom w);
                 footer = \<lparr>index_handle = \<lparr>bh_offset = off1, bh_size = length index_data\<rparr>,
                           meta_handle = \<lparr>bh_offset = off2, bh_size = length bloom_data\<rparr>,
                           num_entries = sw_entry_count w, magic = kMagic\<rparr>
             in (True, data_bytes @ index_data @ bloom_data @ Footer_Serialize footer)))"

subsection \<open>Reader\<close>

text \<open>
  \<open>seekg\<close> takes the 64-bit offset as a signed \<open>std::streamoff\<close>: an offset from \<open>2 ^ 63\<close>
  on is negative and the seek fails. A seek beyond the end of the file succeeds. A read
  of \<open>n\<close> bytes at an offset into a buffer of \<open>n\<close> zero bytes gives the bytes of the file
  that are there, the rest of the buffer unchanged, and whether the stream is still good.
  On a stream that has failed, a seek and a read do nothing.
\<close>

definition seek_ok :: "bool \<Rightarrow> nat \<Rightarrow> bool" where
  "seek_ok ok off \<longleftrightarrow> ok \<and> off < 2 ^ 63"

definition read_at :: "string \<Rightarrow> bool \<Rightarrow> nat \<Rightarrow> nat \<Rightarrow> string \<times> bool" where
  "read_at file ok off n =
     (if \<not> ok then (replicate n (CHR 0x00), False)
      else
        let avail = take n (drop off file)
        in (avail @ replicate (n - length avail) (CHR 0x00), length avail = n))"

text \<open>
  A \<open>std::unordered_map\<close> as the list of its pairs, one pair for every key; \<open>map_put\<close> is
  \<open>m[key] = value\<close> and \<open>map_of\<close> is \<open>find\<close>.
\<close>

fun map_put :: "'k \<Rightarrow> 'v \<Rightarrow> ('k \<times> 'v) list \<Rightarrow> ('k \<times> 'v) list" where
  "map_put k v [] = [(k, v)]"
| "map_put k v (p # ps) = (if fst p = k then (k, v) # ps else p # map_put k v ps)"

text \<open>
  \<open>DecodeIndex\<close>: \<open>n\<close> entries from position \<open>pos\<close> of the buffer, each stored under its
  key in the map \<open>index_\<close>; a later entry with the same key replaces an earlier one.
  \<open>decode_entry\<close> is the body of the loop: key, handle and the position after the entry.
\<close>

definition decode_entry :: "string \<Rightarrow> nat \<Rightarrow> sst_error + (string \<times> BlockHandle \<times> nat)" where
  "decode_entry d pos =
     (case buf_read d pos 4 of
        None \<Rightarrow> Inl Buffer_overrun
      | Some klen_bytes \<Rightarrow>
          let klen = le_nat klen_bytes in
          (case buf_read d (pos + 4) klen of
             None \<Rightarrow> Inl Buffer_overrun
           | Some k \<Rightarrow>
               (case buf_read d (pos + 4 + klen) 8 of
                  None \<Rightarrow> Inl Buffer_overrun
                | Some off_bytes \<Rightarrow>
                    (case buf_read d (pos + 4 + klen + 8) 8 of
                       None \<Rightarrow> Inl Buffer_overrun
                     | Some size_bytes \<Rightarrow>
                         Inr (k, \<lparr>bh_offset = le_nat off_bytes, bh_size = le_nat size_bytes\<rparr>,
                              pos + 4 + klen + 16)))))"

fun decode_entries ::
  "string \<Rightarrow> nat \<Rightarrow> nat \<Rightarrow> (string \<times> BlockHandle) list \<Rightarrow>
   sst_error + (string \<times> BlockHandle) list" where
  "decode_entries d 0 pos idx = Inr idx"
| "decode_entries d (Suc n) pos idx =
     (case decode_entry d pos of
        Inl e \<Rightarrow> Inl e
      | Inr (k, bh, pos') \<Rightarrow> decode_entries d n pos' (map_put k bh idx))"

definition DecodeIndex :: "string \<Rightarrow> sst_error + (string \<times> BlockHandle) list" where
  "DecodeIndex d =
     (case buf_read d 0 4 of
        None \<Rightarrow> Inl Buffer_overrun
      | Some n_bytes \<Rightarrow> decode_entries d (le_nat n_bytes) 4 [])"

record SSTableReader =
  sr_file :: string
  sr_valid :: bool
  sr_bloom :: BloomFilter
  sr_index :: "(string \<times> BlockHandle) list"

definition invalid_reader :: "string \<Rightarrow> SSTableReader" where
  "invalid_reader file =
     \<lparr>sr_file = file, sr_valid = False, sr_bloom = BloomFilter_empty, sr_index = []\<rparr>"

text \<open>
  \<open>Load\<close>, run by the constructor on the bytes of the file. The buffers for the filter
  and the index have the sizes that the footer gives.
\<close>

definition Load :: "string \<Rightarrow> sst_error + SSTableReader" where
  "Load file =
     (if length file < sizeof_Footer then Inr (invalid_reader file)
      else
        let footer = Footer_Deserialize (drop (length file - sizeof_Footer) file)
        in if magic footer \<noteq> kMagic then Inr (invalid_reader file)
           else
             (case read_at file (seek_ok True (bh_offset (meta_handle footer)))
                     (bh_offset (meta_handle footer)) (bh_size (meta_handle footer)) of
                (bloom_buf, ok1) \<Rightarrow>
                  (case bloom_Deserialize bloom_buf of
                     Inl e \<Rightarrow> Inl e
                   | Inr bloom \<Rightarrow>
                       (case read_at file (seek_ok ok1 (bh_offset (index_handle footer)))
                               (bh_offset (index_handle footer)) (bh_size (index_handle footer)) of
                          (index_buf, ok2) \<Rightarrow>
                            (case DecodeIndex index_buf of
                               Inl e \<Rightarrow> Inl e
                             | Inr idx \<Rightarrow>
                                 Inr \<lparr>sr_file = file, sr_valid = True, sr_bloom = bloom,
                                       sr_index = idx\<rparr>)))))"

text \<open>
  \<open>ReadKVAt\<close>: the value when the function returns true. The reads follow each other on
  one stream; the stored key is compared before the value is read.
\<close>

definition ReadKVAt :: "string \<Rightarrow> BlockHandle \<Rightarrow> string \<Rightarrow> string option" where
  "ReadKVAt file bh expected_key =
     (case read_at file (seek_ok True (bh_offset bh)) (bh_offset bh) 4 of
        (klen_buf, ok1) \<Rightarrow>
          let klen = le_nat klen_buf in
          (case read_at file ok1 (bh_offset bh + 4) klen of
             (k, ok2) \<Rightarrow>
               if k \<noteq> expected_key then None
               else
                 (case read_at file ok2 (bh_offset bh + 4 + klen) 4 of
                    (vlen_buf, ok3) \<Rightarrow>
                      let vlen = le_nat vlen_buf in
                      (case read_at file ok3 (bh_offset bh + 4 + klen + 4) vlen of
                         (v, ok4) \<Rightarrow> if ok4 then Some v else None))))"

text \<open>\<open>Get\<close>: \<open>Some v\<close> is \<open>true\<close> with the value \<open>v\<close>, \<open>None\<close> is \<open>false\<close>.\<close>

definition sst_Get :: "SSTableReader \<Rightarrow> string \<Rightarrow> sst_error + string option" where
  "sst_Get r k =
     (if \<not> sr_valid r then Inr None
      else
        (case MayContain (sr_bloom r) k of
           Inl e \<Rightarrow> Inl e
         | Inr False \<Rightarrow> Inr None
         | Inr True \<Rightarrow>
             (case map_of (sr_index r) k of
                None \<Rightarrow> Inr None
              | Some bh \<Rightarrow> Inr (ReadKVAt (sr_file r) bh k))))"

text \<open>\<open>AllKeys\<close>: the keys of the index, sorted.\<close>

definition AllKeys :: "SSTableReader \<Rightarrow> string list" where
  "AllKeys r = sort (map fst (sr_index r))"

text \<open>The writer after a sequence of \<open>Add\<close> calls, and the file that \<open>Finish\<close> writes then.\<close>

fun add_all :: "SSTableWriter \<Rightarrow> (string \<times> string) list \<Rightarrow> sst_error + SSTableWriter" where
  "add_all w [] = Inr w"
| "add_all w ((k, v) # kvs) =
     (case sw_Add w k v of
        Inl e \<Rightarrow> Inl e
      | Inr (ok, w') \<Rightarrow> add_all w' kvs)"

definition sst_file :: "(string \<times> string) list \<Rightarrow> string" where
  "sst_file kvs =
     (case add_all SSTableWriter_new kvs of
        Inl e \<Rightarrow> []
      | Inr w \<Rightarrow> snd (Finish w))"

subsection \<open>Properties of the encodings\<close>

subsection \<open>Bloom filter: no false negatives\<close>

definition bloom_wf :: "BloomFilter \<Rightarrow> bool" where
  "bloom_wf bf \<longleftrightarrow> num_bits bf = 8 * length (bits bf) \<and> bits bf \<noteq> []"

definition added_bits :: "BloomFilter \<Rightarrow> string \<Rightarrow> 8 word list" where
  "added_bits bf k = fold (\<lambda>i bs. set_bit_at bs (bit_index bf k i)) [0..<nat (num_hashes bf)] (bits bf)"

definition all_bits_set :: "BloomFilter \<Rightarrow> string \<Rightarrow> bool" where
  "all_bits_set bf k \<longleftrightarrow>
     list_all (\<lambda>i. test_bit_at (bits bf) (bit_index bf k i)) [0..<nat (num_hashes bf)]"

lemma length_set_bit_at [simp]: "length (set_bit_at bs h) = length bs"
  by (simp add: set_bit_at_def)

lemma bit_mask8: "h < 8 \<Longrightarrow> bit (2 ^ h :: 8 word) j \<longleftrightarrow> j = h"
  by (auto simp: bit_exp_iff)

lemma test_bit_at_iff:
  "test_bit_at bs h \<longleftrightarrow> bit (bs ! (h div 8)) (h mod 8)"
proof -
  have m: "h mod 8 < 8" by simp
  have "(bs ! (h div 8)) AND push_bit (h mod 8) 1 \<noteq> 0 \<longleftrightarrow>
        (\<exists>j. bit ((bs ! (h div 8)) AND push_bit (h mod 8) (1::8 word)) j)"
    by (metis bit_eq_iff bit_0_eq bot_apply bot_bool_def)
  also have "\<dots> \<longleftrightarrow> bit (bs ! (h div 8)) (h mod 8)"
    using m by (auto simp: bit_and_iff bit_mask8)
  finally show ?thesis by (simp add: test_bit_at_def)
qed

lemma test_set_bit_at:
  assumes "h' < 8 * length bs"
  shows "test_bit_at (set_bit_at bs h') h \<longleftrightarrow> test_bit_at bs h \<or> h = h'"
proof -
  have l: "h' div 8 < length bs" using assms by simp
  show ?thesis
  proof (cases "h div 8 = h' div 8")
    case True
    have "h mod 8 = h' mod 8 \<longleftrightarrow> h = h'" using True by (metis div_mult_mod_eq)
    then show ?thesis using True l
      by (auto simp: test_bit_at_iff set_bit_at_def bit_or_iff bit_mask8)
  next
    case False
    then have "h \<noteq> h'" by auto
    with False show ?thesis by (simp add: test_bit_at_iff set_bit_at_def)
  qed
qed

lemma fold_set_bits:
  assumes "\<forall>i \<in> set js. f i < 8 * length bs"
  shows "length (fold (\<lambda>i bs. set_bit_at bs (f i)) js bs) = length bs \<and>
         (test_bit_at (fold (\<lambda>i bs. set_bit_at bs (f i)) js bs) h \<longleftrightarrow>
            test_bit_at bs h \<or> h \<in> f ` set js)"
  using assms
proof (induction js arbitrary: bs)
  case Nil
  then show ?case by simp
next
  case (Cons i js)
  have "\<forall>j \<in> set js. f j < 8 * length (set_bit_at bs (f i))" using Cons.prems by simp
  from Cons.IH[OF this] Cons.prems show ?case by (auto simp: test_set_bit_at)
qed

lemma bit_index_bound:
  assumes "bloom_wf bf"
  shows "bit_index bf k i < 8 * length (bits bf)"
proof -
  from assms have "0 < num_bits bf" "num_bits bf = 8 * length (bits bf)"
    by (auto simp: bloom_wf_def)
  then show ?thesis
    unfolding bit_index_def by (metis mod_less_divisor)
qed

lemma add_loop_wf:
  assumes "bloom_wf bf" "length bs = length (bits bf)"
  shows "add_loop bf k js bs = Inr (fold (\<lambda>i bs. set_bit_at bs (bit_index bf k i)) js bs)"
  using assms(2)
proof (induction js arbitrary: bs)
  case Nil then show ?case by simp
next
  case (Cons i js)
  have "bit_index bf k i div 8 < length bs"
    using bit_index_bound[OF assms(1), of k i] Cons.prems by simp
  moreover have "num_bits bf \<noteq> 0" using assms(1) by (auto simp: bloom_wf_def)
  ultimately show ?case using Cons by simp
qed

lemma bloom_Add_wf:
  "bloom_wf bf \<Longrightarrow> bloom_Add bf k = Inr (bf\<lparr>bits := added_bits bf k\<rparr>)"
  by (simp add: bloom_Add_def add_loop_wf added_bits_def)

lemma contain_loop_wf:
  assumes "bloom_wf bf"
  shows "contain_loop bf k js = Inr (list_all (\<lambda>i. test_bit_at (bits bf) (bit_index bf k i)) js)"
proof (induction js)
  case Nil then show ?case by simp
next
  case (Cons i js)
  have "bit_index bf k i div 8 < length (bits bf)"
    using bit_index_bound[OF assms, of k i] by simp
  moreover have "num_bits bf \<noteq> 0" using assms by (auto simp: bloom_wf_def)
  ultimately show ?case using Cons by simp
qed

lemma MayContain_wf: "bloom_wf bf \<Longrightarrow> MayContain bf k = Inr (all_bits_set bf k)"
  by (simp add: MayContain_def contain_loop_wf all_bits_set_def)

lemma length_added_bits:
  assumes "bloom_wf bf"
  shows "length (added_bits bf k) = length (bits bf)"
proof -
  have "\<forall>i \<in> set [0..<nat (num_hashes bf)]. bit_index bf k i < 8 * length (bits bf)"
    using bit_index_bound[OF assms] by simp
  from fold_set_bits[OF this, of undefined] show ?thesis by (simp add: added_bits_def)
qed

lemma bloom_wf_added: "bloom_wf bf \<Longrightarrow> bloom_wf (bf\<lparr>bits := added_bits bf k\<rparr>)"
  using length_added_bits[of bf k] by (auto simp: bloom_wf_def)

lemma bit_index_added: "bit_index (bf\<lparr>bits := bs\<rparr>) k' i = bit_index bf k' i"
  by (simp add: bit_index_def)

lemma test_bit_added:
  assumes "bloom_wf bf"
  shows "test_bit_at (added_bits bf k) h \<longleftrightarrow>
         test_bit_at (bits bf) h \<or> h \<in> bit_index bf k ` {0..<nat (num_hashes bf)}"
proof -
  have "\<forall>i \<in> set [0..<nat (num_hashes bf)]. bit_index bf k i < 8 * length (bits bf)"
    using bit_index_bound[OF assms] by simp
  from fold_set_bits[OF this, of h] show ?thesis by (simp add: added_bits_def)
qed

lemma all_bits_set_added_same: "bloom_wf bf \<Longrightarrow> all_bits_set (bf\<lparr>bits := added_bits bf k\<rparr>) k"
  by (auto simp: all_bits_set_def list_all_iff test_bit_added bit_index_added)

lemma all_bits_set_added_mono:
  "bloom_wf bf \<Longrightarrow> all_bits_set bf k' \<Longrightarrow> all_bits_set (bf\<lparr>bits := added_bits bf k\<rparr>) k'"
  by (auto simp: all_bits_set_def list_all_iff test_bit_added bit_index_added)

lemma bloom_new_1024:
  "bloom_wf (BloomFilter_new 1024) \<and> length (bits (BloomFilter_new 1024)) = 1280 \<and>
   num_hashes (BloomFilter_new 1024) = 6"
  by (simp add: bloom_wf_def BloomFilter_new_def Let_def OptimalHashes_default_def)

lemma char_byte_byte_char [simp]: "char_byte (byte_char b) = b"
proof -
  have "unat b < 256" using unsigned_less[of b] by simp
  then show ?thesis by (simp add: char_byte_def byte_char_def)
qed

lemma le_int32_roundtrip:
  assumes "- (2 ^ 31) \<le> n" "n < 2 ^ 31"
  shows "le_int32 (le_bytes (nat (n mod 2 ^ 32)) 4) = n"
proof -
  have "nat (n mod 2 ^ 32) < 256 ^ 4" by simp
  then have l: "le_nat (le_bytes (nat (n mod 2 ^ 32)) 4) = nat (n mod 2 ^ 32)"
    by (rule le_nat_le_bytes)
  show ?thesis
  proof (cases "0 \<le> n")
    case True
    with assms have e: "n mod 2 ^ 32 = n" by simp
    have "le_nat (le_bytes (nat n) 4) = nat n" using l unfolding e .
    with True assms show ?thesis by (simp add: le_int32_def Let_def)
  next
    case False
    with assms have "(n + 2 ^ 32) mod 2 ^ 32 = n + 2 ^ 32" by (intro mod_pos_pos_trivial) auto
    then have e: "n mod 4294967296 = n + 4294967296" by simp
    have "le_nat (le_bytes (nat (n mod 4294967296)) 4) = nat (n + 4294967296)" using l e by simp
    with False assms show ?thesis by (simp add: le_int32_def Let_def)
  qed
qed

lemma buf_read_inside:
  "pos + n \<le> length d \<Longrightarrow> buf_read d pos n = Some (take n (drop pos d))"
  by (simp add: buf_read_def)

lemma bloom_roundtrip:
  assumes "length (bits bf) < 2 ^ 29" "- (2 ^ 31) \<le> num_hashes bf" "num_hashes bf < 2 ^ 31"
    "bloom_wf bf"
  shows "bloom_Deserialize (bloom_Serialize bf) = Inr bf"
proof -
  let ?H = "le_bytes (nat (num_hashes bf mod 2 ^ 32)) 4"
  let ?N = "le_bytes (length (bits bf)) 4"
  let ?B = "map byte_char (bits bf)"
  have m: "length (bits bf) mod 4294967296 = length (bits bf)" using assms(1) by simp
  have s: "bloom_Serialize bf = ?H @ ?N @ ?B" by (simp add: bloom_Serialize_def m)
  have n: "le_nat ?N = length (bits bf)" using assms(1) by (simp add: le_nat_le_bytes)
  have h: "le_int32 (le_bytes (nat (num_hashes bf mod 4294967296)) 4) = num_hashes bf"
    using le_int32_roundtrip[OF assms(2,3)] by simp
  have len: "length (bloom_Serialize bf) = 8 + length (bits bf)" by (simp add: s)
  have r1: "buf_read (bloom_Serialize bf) 0 4 = Some ?H"
    by (subst buf_read_inside) (simp_all add: len, simp add: s)
  have r2: "buf_read (bloom_Serialize bf) 4 4 = Some ?N"
    by (subst buf_read_inside) (simp_all add: len, simp add: s)
  have r3: "buf_read (bloom_Serialize bf) 8 (length (bits bf)) = Some ?B"
    by (subst buf_read_inside) (simp_all add: len, simp add: s)
  have b: "map (char_byte \<circ> byte_char) (bits bf) = bits bf" by (simp add: comp_def)
  have nb: "(length (bits bf) * 8) mod 4294967296 = num_bits bf"
    using assms(1,4) by (simp add: bloom_wf_def)
  have "bloom_Deserialize (bloom_Serialize bf) =
        Inr \<lparr>bits = bits bf, num_bits = num_bits bf, num_hashes = num_hashes bf\<rparr>"
    by (simp add: bloom_Deserialize_def r1 r2 n r3 h b nb)
  then show ?thesis by simp
qed

subsection \<open>The writer\<close>

lemma add_all_spec:
  assumes "sw_open w" "bloom_wf (sw_bloom w)"
  shows "\<exists>w'. add_all w kvs = Inr w' \<and> sw_open w' \<and> sw_entries w' = sw_entries w @ kvs \<and>
         bloom_wf (sw_bloom w') \<and>
         length (bits (sw_bloom w')) = length (bits (sw_bloom w)) \<and>
         num_hashes (sw_bloom w') = num_hashes (sw_bloom w) \<and>
         (\<forall>k \<in> fst ` set kvs. all_bits_set (sw_bloom w') k) \<and>
         (\<forall>k. all_bits_set (sw_bloom w) k \<longrightarrow> all_bits_set (sw_bloom w') k)"
  using assms
proof (induction kvs arbitrary: w)
  case Nil
  then show ?case by simp
next
  case (Cons kv kvs)
  obtain k v where kv: "kv = (k, v)" by (cases kv)
  let ?b = "(sw_bloom w)\<lparr>bits := added_bits (sw_bloom w) k\<rparr>"
  let ?w = "w\<lparr>sw_entries := sw_entries w @ [(k, v)], sw_bloom := ?b,
               sw_entry_count := (sw_entry_count w + 1) mod 2 ^ 64\<rparr>"
  have st: "sw_Add w k v = Inr (True, ?w)"
    using Cons.prems by (simp add: sw_Add_def bloom_Add_wf)
  have o: "sw_open ?w" using Cons.prems(1) by simp
  have wf: "bloom_wf (sw_bloom ?w)" using Cons.prems(2) by (simp add: bloom_wf_added)
  have l: "length (bits (sw_bloom ?w)) = length (bits (sw_bloom w))"
    using length_added_bits[OF Cons.prems(2), of k] by simp
  have same: "all_bits_set (sw_bloom ?w) k"
    using Cons.prems(2) by (simp add: all_bits_set_added_same)
  have mono: "\<And>k'. all_bits_set (sw_bloom w) k' \<Longrightarrow> all_bits_set (sw_bloom ?w) k'"
    using Cons.prems(2) by (simp add: all_bits_set_added_mono)
  from Cons.IH[OF o wf] obtain w' where w': "add_all ?w kvs = Inr w'" "sw_open w'"
    "sw_entries w' = sw_entries ?w @ kvs" "bloom_wf (sw_bloom w')"
    "length (bits (sw_bloom w')) = length (bits (sw_bloom ?w))"
    "num_hashes (sw_bloom w') = num_hashes (sw_bloom ?w)"
    "\<forall>k \<in> fst ` set kvs. all_bits_set (sw_bloom w') k"
    "\<forall>k. all_bits_set (sw_bloom ?w) k \<longrightarrow> all_bits_set (sw_bloom w') k"
    by blast
  have "add_all w (kv # kvs) = Inr w'" using st w'(1) by (simp add: kv)
  moreover have "sw_entries w' = sw_entries w @ kv # kvs" using w'(3) by (simp add: kv)
  moreover have "length (bits (sw_bloom w')) = length (bits (sw_bloom w))" using w'(5) l by simp
  moreover have "num_hashes (sw_bloom w') = num_hashes (sw_bloom w)" using w'(6) by simp
  moreover have "\<forall>k \<in> fst ` set (kv # kvs). all_bits_set (sw_bloom w') k"
    using w'(7,8) same by (auto simp: kv)
  moreover have "\<forall>k. all_bits_set (sw_bloom w) k \<longrightarrow> all_bits_set (sw_bloom w') k"
    using w'(8) mono by blast
  ultimately show ?case using w'(2,4) by blast
qed

text \<open>The records of a list of pairs, and their handles when the offsets do not wrap.\<close>

definition records :: "(string \<times> string) list \<Rightarrow> string" where
  "records es = concat (map (\<lambda>(k, v). EncodeKV k v) es)"

fun handles :: "(string \<times> string) list \<Rightarrow> nat \<Rightarrow> (string \<times> BlockHandle) list" where
  "handles [] off = []"
| "handles ((k, v) # es) off =
     (k, \<lparr>bh_offset = off, bh_size = length (EncodeKV k v)\<rparr>) #
     handles es (off + length (EncodeKV k v))"

lemma records_Cons: "records ((k, v) # es) = EncodeKV k v @ records es"
  by (simp add: records_def)

lemma records_Nil: "records [] = []"
  by (simp add: records_def)

lemma write_records_bytes: "fst (write_records es off) = records es"
  by (induction es off rule: write_records.induct)
     (auto simp: records_Nil records_Cons Let_def split: prod.splits)

lemma write_records_spec:
  "off + length (records es) < 2 ^ 64 \<Longrightarrow>
   write_records es off = (records es, off + length (records es), handles es off)"
proof (induction es off rule: write_records.induct)
  case (1 off)
  then show ?case by (simp add: records_Nil)
next
  case (2 k v es off)
  have a: "add_u64 off (length (EncodeKV k v)) = off + length (EncodeKV k v)"
    using 2(2) by (simp add: add_u64_def records_Cons)
  have "off + length (EncodeKV k v) + length (records es) < 2 ^ 64"
    using 2(2) by (simp add: records_Cons)
  with 2(1)[OF refl] a show ?case by (simp add: records_Cons Let_def)
qed

lemma handles_keys: "map fst (handles es off) = map fst es"
  by (induction es off rule: handles.induct) simp_all

lemma handles_record:
  "(k, bh) \<in> set (handles es off) \<Longrightarrow>
   \<exists>v pre post. (k, v) \<in> set es \<and> records es = pre @ EncodeKV k v @ post \<and>
                bh_offset bh = off + length pre"
proof (induction es off rule: handles.induct)
  case (1 off)
  then show ?case by simp
next
  case (2 k' v' es off)
  show ?case
  proof (cases "(k, bh) = (k', \<lparr>bh_offset = off, bh_size = length (EncodeKV k' v')\<rparr>)")
    case True
    then have "(k, v') \<in> set ((k', v') # es)" "records ((k', v') # es) = [] @ EncodeKV k v' @ records es"
      "bh_offset bh = off + length ([] :: string)"
      by (auto simp: records_Cons)
    then show ?thesis by blast
  next
    case False
    with 2(2) have "(k, bh) \<in> set (handles es (off + length (EncodeKV k' v')))" by auto
    from 2(1)[OF this] obtain v pre post where
      r: "(k, v) \<in> set es" "records es = pre @ EncodeKV k v @ post"
         "bh_offset bh = off + length (EncodeKV k' v') + length pre"
      by blast
    then have "(k, v) \<in> set ((k', v') # es)"
      "records ((k', v') # es) = (EncodeKV k' v' @ pre) @ EncodeKV k v @ post"
      "bh_offset bh = off + length (EncodeKV k' v' @ pre)"
      by (auto simp: records_Cons)
    then show ?thesis by blast
  qed
qed

lemma handles_bounds:
  "(k, bh) \<in> set (handles es off) \<Longrightarrow>
   bh_offset bh + bh_size bh \<le> off + length (records es)"
  by (induction es off rule: handles.induct) (auto simp: records_Cons)

subsection \<open>The index\<close>

definition stored ::
  "(string \<times> BlockHandle) list \<Rightarrow> (string \<times> BlockHandle) list \<Rightarrow> (string \<times> BlockHandle) list" where
  "stored idx m = fold (\<lambda>e m. map_put (fst e) (snd e) m) idx m"

lemma length_encode_index_entry:
  "length (encode_index_entry e) = 20 + length (fst e)"
  by (simp add: encode_index_entry_def)

lemma decode_encoded_entry:
  assumes "length (fst e) < 2 ^ 32" "bh_offset (snd e) < 2 ^ 64" "bh_size (snd e) < 2 ^ 64"
  shows "decode_entry (pre @ encode_index_entry e @ post) (length pre) =
         Inr (fst e, snd e, length pre + length (encode_index_entry e))"
proof -
  let ?k = "fst e"
  let ?d = "pre @ encode_index_entry e @ post"
  let ?p = "length pre"
  have d: "?d = pre @ le_bytes (length ?k) 4 @ ?k @ le_bytes (bh_offset (snd e)) 8 @
                 le_bytes (bh_size (snd e)) 8 @ post"
    by (simp add: encode_index_entry_def)
  have len: "length ?d = ?p + 20 + length ?k + length post" by (simp add: d)
  have r1: "buf_read ?d ?p 4 = Some (le_bytes (length ?k) 4)"
    by (subst buf_read_inside) (simp_all add: encode_index_entry_def)
  have k: "le_nat (le_bytes (length ?k) 4) = length ?k"
    using assms(1) by (simp add: le_nat_le_bytes)
  have r2: "buf_read ?d (?p + 4) (length ?k) = Some ?k"
  proof (subst buf_read_inside)
    show "?p + 4 + length ?k \<le> length ?d" by (simp add: length_encode_index_entry)
    have "drop (?p + 4) ?d = ?k @ le_bytes (bh_offset (snd e)) 8 @ le_bytes (bh_size (snd e)) 8 @ post"
      by (subst d) simp
    then show "Some (take (length ?k) (drop (?p + 4) ?d)) = Some ?k" by simp
  qed
  have r3: "buf_read ?d (?p + 4 + length ?k) 8 = Some (le_bytes (bh_offset (snd e)) 8)"
  proof (subst buf_read_inside)
    show "?p + 4 + length ?k + 8 \<le> length ?d" by (simp add: length_encode_index_entry)
    have "drop (?p + 4 + length ?k) ?d = le_bytes (bh_offset (snd e)) 8 @ le_bytes (bh_size (snd e)) 8 @ post"
      by (subst d) simp
    then show "Some (take 8 (drop (?p + 4 + length ?k) ?d)) = Some (le_bytes (bh_offset (snd e)) 8)"
      by simp
  qed
  have r4: "buf_read ?d (?p + 4 + length ?k + 8) 8 = Some (le_bytes (bh_size (snd e)) 8)"
  proof (subst buf_read_inside)
    show "?p + 4 + length ?k + 8 + 8 \<le> length ?d" by (simp add: length_encode_index_entry)
    have "drop (?p + 4 + length ?k + 8) ?d = le_bytes (bh_size (snd e)) 8 @ post"
      by (subst d) simp
    then show "Some (take 8 (drop (?p + 4 + length ?k + 8) ?d)) = Some (le_bytes (bh_size (snd e)) 8)"
      by simp
  qed
  have o: "le_nat (le_bytes (bh_offset (snd e)) 8) = bh_offset (snd e)"
    using assms(2) by (simp add: le_nat_le_bytes)
  have s: "le_nat (le_bytes (bh_size (snd e)) 8) = bh_size (snd e)"
    using assms(3) by (simp add: le_nat_le_bytes)
  have r4': "buf_read ?d (12 + (?p + length ?k)) 8 = Some (le_bytes (bh_size (snd e)) 8)"
    using r4 by (simp add: ac_simps)
  show ?thesis
    unfolding decode_entry_def r1
    by (simp add: Let_def k r2 r3 r4' o s length_encode_index_entry)
qed

lemma decode_encoded_entries:
  assumes "\<forall>e \<in> set idx. length (fst e) < 2 ^ 32 \<and> bh_offset (snd e) < 2 ^ 64 \<and> bh_size (snd e) < 2 ^ 64"
  shows "decode_entries (pre @ concat (map encode_index_entry idx) @ post) (length idx) (length pre) m
         = Inr (stored idx m)"
  using assms
proof (induction idx arbitrary: pre m)
  case Nil
  then show ?case by (simp add: stored_def)
next
  case (Cons e idx)
  let ?d = "pre @ concat (map encode_index_entry (e # idx)) @ post"
  have d1: "?d = pre @ encode_index_entry e @ (concat (map encode_index_entry idx) @ post)" by simp
  have d2: "?d = (pre @ encode_index_entry e) @ concat (map encode_index_entry idx) @ post" by simp
  have e: "decode_entry ?d (length pre) = Inr (fst e, snd e, length pre + length (encode_index_entry e))"
    unfolding d1 using Cons.prems by (intro decode_encoded_entry) auto
  have "decode_entries ?d (length idx) (length (pre @ encode_index_entry e)) (map_put (fst e) (snd e) m)
        = Inr (stored idx (map_put (fst e) (snd e) m))"
    unfolding d2 using Cons.prems by (intro Cons.IH) auto
  then show ?case using e by (simp add: stored_def)
qed

lemma DecodeIndex_EncodeIndex:
  assumes "length idx < 2 ^ 32"
    "\<forall>e \<in> set idx. length (fst e) < 2 ^ 32 \<and> bh_offset (snd e) < 2 ^ 64 \<and> bh_size (snd e) < 2 ^ 64"
  shows "DecodeIndex (EncodeIndex idx) = Inr (stored idx [])"
proof -
  let ?d = "EncodeIndex idx"
  have d: "?d = le_bytes (length idx) 4 @ concat (map encode_index_entry idx) @ []"
    by (simp add: EncodeIndex_def)
  have r: "buf_read ?d 0 4 = Some (le_bytes (length idx) 4)"
    by (subst buf_read_inside) (simp_all add: d)
  have n: "le_nat (le_bytes (length idx) 4) = length idx"
    using assms(1) by (simp add: le_nat_le_bytes)
  have "decode_entries ?d (length idx) (length (le_bytes (length idx) 4)) []
        = Inr (stored idx [])"
    unfolding d by (rule decode_encoded_entries[OF assms(2)])
  then show ?thesis by (simp add: DecodeIndex_def r n)
qed

lemma map_put_fresh: "k \<notin> fst ` set ps \<Longrightarrow> map_put k v ps = ps @ [(k, v)]"
  by (induction ps) auto

lemma map_of_map_put: "map_of (map_put k v ps) = (map_of ps)(k \<mapsto> v)"
  by (induction ps) (auto simp: fun_eq_iff)

lemma stored_append:
  "distinct (map fst (m @ idx)) \<Longrightarrow> stored idx m = m @ idx"
proof (induction idx arbitrary: m)
  case Nil
  then show ?case by (simp add: stored_def)
next
  case (Cons e idx)
  have "fst e \<notin> fst ` set m" using Cons.prems by auto
  then have p: "map_put (fst e) (snd e) m = m @ [e]" by (simp add: map_put_fresh)
  have "distinct (map fst ((m @ [e]) @ idx))" using Cons.prems by simp
  from Cons.IH[OF this] have "stored idx (m @ [e]) = (m @ [e]) @ idx" .
  then show ?case by (simp add: stored_def p)
qed

lemma stored_distinct: "distinct (map fst idx) \<Longrightarrow> stored idx [] = idx"
  using stored_append[of "[]" idx] by simp

subsection \<open>Footer and file\<close>

lemma Footer_roundtrip:
  assumes "bh_offset (index_handle f) < 2 ^ 64" "bh_size (index_handle f) < 2 ^ 64"
    "bh_offset (meta_handle f) < 2 ^ 64" "bh_size (meta_handle f) < 2 ^ 64"
    "num_entries f < 2 ^ 64" "magic f < 2 ^ 64"
  shows "Footer_Deserialize (Footer_Serialize f) = f"
proof -
  have "Footer_Deserialize (Footer_Serialize f) =
        \<lparr>index_handle = \<lparr>bh_offset = bh_offset (index_handle f), bh_size = bh_size (index_handle f)\<rparr>,
         meta_handle = \<lparr>bh_offset = bh_offset (meta_handle f), bh_size = bh_size (meta_handle f)\<rparr>,
         num_entries = num_entries f, magic = magic f\<rparr>"
    using assms by (simp add: Footer_Deserialize_def Footer_Serialize_def le_nat_le_bytes)
  then show ?thesis by simp
qed

lemma length_Footer_Serialize: "length (Footer_Serialize f) = 48"
  by (simp add: Footer_Serialize_def)

lemma read_at_inside:
  assumes "file = pre @ x @ post" "length pre = off" "length x = n"
  shows "read_at file True off n = (x, True)"
  using assms by (simp add: read_at_def Let_def)

lemma Load_layout:
  assumes fl: "file = recs @ index_data @ bloom_data @ Footer_Serialize f"
    and ih: "index_handle f = \<lparr>bh_offset = length recs, bh_size = length index_data\<rparr>"
    and mh: "meta_handle f = \<lparr>bh_offset = length recs + length index_data, bh_size = length bloom_data\<rparr>"
    and ne: "num_entries f < 2 ^ 64" and mg: "magic f = kMagic"
    and len: "length file < 2 ^ 63"
  shows "Load file =
     (case bloom_Deserialize bloom_data of
        Inl e \<Rightarrow> Inl e
      | Inr bloom \<Rightarrow>
          (case DecodeIndex index_data of
             Inl e \<Rightarrow> Inl e
           | Inr idx \<Rightarrow> Inr \<lparr>sr_file = file, sr_valid = True, sr_bloom = bloom, sr_index = idx\<rparr>))"
proof -
  have l: "length file = length recs + length index_data + length bloom_data + 48"
    by (simp add: fl length_Footer_Serialize)
  have ft: "drop (length file - sizeof_Footer) file = Footer_Serialize f"
    by (simp add: sizeof_Footer_def l) (simp add: fl)
  have b: "bh_offset (index_handle f) < 2 ^ 64" "bh_size (index_handle f) < 2 ^ 64"
    "bh_offset (meta_handle f) < 2 ^ 64" "bh_size (meta_handle f) < 2 ^ 64" "magic f < 2 ^ 64"
    using len l by (simp_all add: ih mh mg kMagic_def)
  have fr: "Footer_Deserialize (Footer_Serialize f) = f"
    by (rule Footer_roundtrip[OF b(1-4) ne b(5)])
  have s1: "seek_ok True (length recs + length index_data)" using len l by (simp add: seek_ok_def)
  have r1: "read_at file True (length recs + length index_data) (length bloom_data) = (bloom_data, True)"
    by (rule read_at_inside[where pre = "recs @ index_data" and post = "Footer_Serialize f"])
       (simp_all add: fl)
  have s2: "seek_ok True (length recs)" using len l by (simp add: seek_ok_def)
  have r2: "read_at file True (length recs) (length index_data) = (index_data, True)"
    by (rule read_at_inside[where pre = recs and post = "bloom_data @ Footer_Serialize f"])
       (simp_all add: fl)
  have big: "\<not> length file < sizeof_Footer" by (simp add: l sizeof_Footer_def)
  show ?thesis
    unfolding Load_def ft fr
    using big by (simp add: mg ih mh s1 r1 s2 r2 split: sum.splits)
qed

lemma ReadKVAt_record:
  assumes fl: "file = pre @ EncodeKV k v @ post"
    and off: "bh_offset bh = length pre" "length pre < 2 ^ 63"
    and k: "length k < 2 ^ 32" and v: "length v < 2 ^ 32"
  shows "ReadKVAt file bh k = Some v"
proof -
  let ?o = "length pre"
  have f: "file = pre @ le_bytes (length k) 4 @ k @ le_bytes (length v) 4 @ v @ post"
    by (simp add: fl EncodeKV_def)
  have s: "seek_ok True ?o" using off(2) by (simp add: seek_ok_def)
  have r1: "read_at file True ?o 4 = (le_bytes (length k) 4, True)"
    by (rule read_at_inside[where pre = pre and post = "k @ le_bytes (length v) 4 @ v @ post"])
       (simp_all add: f)
  have kl: "le_nat (le_bytes (length k) 4) = length k" using k by (simp add: le_nat_le_bytes)
  have r2: "read_at file True (?o + 4) (length k) = (k, True)"
    by (rule read_at_inside[where pre = "pre @ le_bytes (length k) 4"
          and post = "le_bytes (length v) 4 @ v @ post"]) (simp_all add: f)
  have r3: "read_at file True (?o + 4 + length k) 4 = (le_bytes (length v) 4, True)"
    by (rule read_at_inside[where pre = "pre @ le_bytes (length k) 4 @ k"
          and post = "v @ post"]) (simp_all add: f)
  have vl: "le_nat (le_bytes (length v) 4) = length v" using v by (simp add: le_nat_le_bytes)
  have r4: "read_at file True (?o + 4 + length k + 4) (length v) = (v, True)"
    by (rule read_at_inside[where pre = "pre @ le_bytes (length k) 4 @ k @ le_bytes (length v) 4"
          and post = post]) (simp_all add: f)
  have r4': "read_at file True (8 + (length pre + length k)) (length v) = (v, True)"
    using r4 by (simp add: ac_simps)
  show ?thesis
    unfolding ReadKVAt_def off(1) by (simp add: s r1 kl r2 r3 vl r4')
qed

subsection \<open>Round trip\<close>

lemma new_writer_adds:
  "\<exists>w. add_all SSTableWriter_new kvs = Inr w \<and> sw_open w \<and> sw_entries w = kvs \<and>
       bloom_wf (sw_bloom w) \<and> length (bits (sw_bloom w)) = 1280 \<and>
       num_hashes (sw_bloom w) = 6 \<and> (\<forall>k \<in> fst ` set kvs. all_bits_set (sw_bloom w) k)"
proof -
  have o: "sw_open SSTableWriter_new" by (simp add: SSTableWriter_new_def)
  have wf: "bloom_wf (sw_bloom SSTableWriter_new)"
    using bloom_new_1024 by (simp add: SSTableWriter_new_def)
  from add_all_spec[OF o wf, of kvs] bloom_new_1024 show ?thesis
    by (auto simp: SSTableWriter_new_def)
qed

text \<open>The file of a writer, block by block.\<close>

definition index_block :: "(string \<times> string) list \<Rightarrow> string" where
  "index_block kvs = EncodeIndex (snd (snd (write_records (sort_key fst kvs) 0)))"

definition footer_of :: "SSTableWriter \<Rightarrow> Footer" where
  "footer_of w =
     (case write_records (sort_key fst (sw_entries w)) 0 of
        (data_bytes, off1, idx) \<Rightarrow>
          \<lparr>index_handle = \<lparr>bh_offset = off1, bh_size = length (EncodeIndex idx)\<rparr>,
           meta_handle = \<lparr>bh_offset = add_u64 off1 (length (EncodeIndex idx)),
                          bh_size = length (bloom_Serialize (sw_bloom w))\<rparr>,
           num_entries = sw_entry_count w, magic = kMagic\<rparr>)"

lemma Finish_layout:
  assumes "sw_open w"
  shows "Finish w = (True, records (sort_key fst (sw_entries w)) @ index_block (sw_entries w) @
                       bloom_Serialize (sw_bloom w) @ Footer_Serialize (footer_of w))"
proof -
  obtain d off1 idx where wr: "write_records (sort_key fst (sw_entries w)) 0 = (d, off1, idx)"
    by (cases "write_records (sort_key fst (sw_entries w)) 0") auto
  have "d = records (sort_key fst (sw_entries w))"
    using write_records_bytes[of "sort_key fst (sw_entries w)" 0] wr by simp
  then show ?thesis using assms wr
    by (simp add: Finish_def Let_def index_block_def footer_of_def)
qed

lemma length_bloom_Serialize:
  "length (bits bf) < 2 ^ 32 \<Longrightarrow> length (bloom_Serialize bf) = 8 + length (bits bf)"
  by (simp add: bloom_Serialize_def)

lemma eq_key_imp_eq_value:
  "distinct (map fst xs) \<Longrightarrow> (k, v1) \<in> set xs \<Longrightarrow> (k, v2) \<in> set xs \<Longrightarrow> v1 = v2"
  by (induction xs) (auto simp: rev_image_eqI)

text \<open>
  \<open>Load\<close> on the file of a writer that got the pairs \<open>kvs\<close>: the reader holds the
  writer's filter and the index decoded from the index block.
\<close>

lemma load_of_file:
  assumes len: "length (sst_file kvs) < 2 ^ 63"
  shows "\<exists>w post. add_all SSTableWriter_new kvs = Inr w \<and> Finish w = (True, sst_file kvs) \<and>
           sst_file kvs = records (sort_key fst kvs) @ post \<and>
           bloom_wf (sw_bloom w) \<and> (\<forall>k \<in> fst ` set kvs. all_bits_set (sw_bloom w) k) \<and>
           Load (sst_file kvs) =
             (case DecodeIndex (EncodeIndex (handles (sort_key fst kvs) 0)) of
                Inl e \<Rightarrow> Inl e
              | Inr idx \<Rightarrow>
                  Inr \<lparr>sr_file = sst_file kvs, sr_valid = True, sr_bloom = sw_bloom w,
                       sr_index = idx\<rparr>)"
proof -
  let ?es = "sort_key fst kvs"
  from new_writer_adds[of kvs] obtain w where
    w: "add_all SSTableWriter_new kvs = Inr w" "sw_open w" "sw_entries w = kvs"
       "bloom_wf (sw_bloom w)" "length (bits (sw_bloom w)) = 1280" "num_hashes (sw_bloom w) = 6"
       "\<forall>k \<in> fst ` set kvs. all_bits_set (sw_bloom w) k"
    by blast
  let ?data = "records ?es"
  let ?index = "index_block kvs"
  let ?bloom = "bloom_Serialize (sw_bloom w)"
  let ?f = "footer_of w"
  have fin: "Finish w = (True, ?data @ ?index @ ?bloom @ Footer_Serialize ?f)"
    using Finish_layout[OF w(2)] by (simp add: w(3))
  then have fl: "sst_file kvs = ?data @ ?index @ ?bloom @ Footer_Serialize ?f"
    by (simp add: sst_file_def w(1))
  have ld: "length ?data + length ?index + length ?bloom + 48 < 2 ^ 63"
    using len by (simp add: fl length_Footer_Serialize)
  then have "0 + length ?data < 2 ^ 64" by simp
  from write_records_spec[OF this]
  have wr: "write_records ?es 0 = (?data, length ?data, handles ?es 0)" by simp
  have ib: "?index = EncodeIndex (handles ?es 0)" by (simp add: index_block_def wr)
  have ft: "?f = \<lparr>index_handle = \<lparr>bh_offset = length ?data, bh_size = length ?index\<rparr>,
                  meta_handle = \<lparr>bh_offset = length ?data + length ?index, bh_size = length ?bloom\<rparr>,
                  num_entries = sw_entry_count w, magic = kMagic\<rparr>"
  proof -
    have "add_u64 (length ?data) (length ?index) = length ?data + length ?index"
      using ld by (simp add: add_u64_def)
    then show ?thesis by (simp add: footer_of_def w(3) wr ib)
  qed
  have ne: "num_entries ?f < 2 ^ 64"
  proof -
    have "\<And>w' kvs'. add_all w' kvs' = Inr w \<Longrightarrow> sw_entry_count w' < 2 ^ 64 \<Longrightarrow>
            sw_entry_count w < 2 ^ 64"
      subgoal for w' kvs'
        by (induction w' kvs' rule: add_all.induct)
           (auto simp: sw_Add_def split: if_splits sum.splits)
      done
    from this[OF w(1)] show ?thesis by (simp add: ft SSTableWriter_new_def)
  qed
  have load: "Load (sst_file kvs) =
     (case bloom_Deserialize ?bloom of
        Inl e \<Rightarrow> Inl e
      | Inr bloom \<Rightarrow>
          (case DecodeIndex ?index of
             Inl e \<Rightarrow> Inl e
           | Inr idx \<Rightarrow> Inr \<lparr>sr_file = sst_file kvs, sr_valid = True, sr_bloom = bloom, sr_index = idx\<rparr>))"
    by (rule Load_layout[OF fl _ _ ne _ len]) (simp_all add: ft)
  have br: "bloom_Deserialize ?bloom = Inr (sw_bloom w)"
    by (rule bloom_roundtrip) (simp_all add: w)
  have "Load (sst_file kvs) =
          (case DecodeIndex (EncodeIndex (handles ?es 0)) of
             Inl e \<Rightarrow> Inl e
           | Inr idx \<Rightarrow>
               Inr \<lparr>sr_file = sst_file kvs, sr_valid = True, sr_bloom = sw_bloom w, sr_index = idx\<rparr>)"
    by (simp add: load br ib)
  moreover have "Finish w = (True, sst_file kvs)" using fin fl by simp
  ultimately show ?thesis using w(1,4,7) fl by blast
qed

text \<open>
  With keys and count inside the 32-bit fields, the index holds every key with the handle
  of its record.
\<close>

lemma reader_of_file:
  assumes keys: "distinct (map fst kvs)"
    and sizes: "\<forall>(k, v) \<in> set kvs. length k < 2 ^ 32 \<and> length v < 2 ^ 32"
    and count: "length kvs < 2 ^ 32"
    and len: "length (sst_file kvs) < 2 ^ 63"
  shows "\<exists>w post. add_all SSTableWriter_new kvs = Inr w \<and> Finish w = (True, sst_file kvs) \<and>
           sst_file kvs = records (sort_key fst kvs) @ post \<and>
           bloom_wf (sw_bloom w) \<and> (\<forall>k \<in> fst ` set kvs. all_bits_set (sw_bloom w) k) \<and>
           Load (sst_file kvs) =
             Inr \<lparr>sr_file = sst_file kvs, sr_valid = True, sr_bloom = sw_bloom w,
                  sr_index = handles (sort_key fst kvs) 0\<rparr>"
proof -
  let ?es = "sort_key fst kvs"
  from load_of_file[OF len] obtain w post where
    w: "add_all SSTableWriter_new kvs = Inr w" "Finish w = (True, sst_file kvs)"
       "sst_file kvs = records ?es @ post"
       "bloom_wf (sw_bloom w)" "\<forall>k \<in> fst ` set kvs. all_bits_set (sw_bloom w) k"
       "Load (sst_file kvs) =
             (case DecodeIndex (EncodeIndex (handles ?es 0)) of
                Inl e \<Rightarrow> Inl e
              | Inr idx \<Rightarrow>
                  Inr \<lparr>sr_file = sst_file kvs, sr_valid = True, sr_bloom = sw_bloom w,
                       sr_index = idx\<rparr>)"
    by blast
  have ld: "length (records ?es) < 2 ^ 63" using len w(3) by simp
  have hk: "map fst (handles ?es 0) = map fst ?es" by (rule handles_keys)
  have dk: "distinct (map fst ?es)" using keys by (simp add: distinct_map)
  have hb: "\<forall>e \<in> set (handles ?es 0).
              length (fst e) < 2 ^ 32 \<and> bh_offset (snd e) < 2 ^ 64 \<and> bh_size (snd e) < 2 ^ 64"
  proof
    fix e assume e: "e \<in> set (handles ?es 0)"
    then have "fst e \<in> fst ` set ?es" using hk by (metis image_eqI set_map)
    then have "fst e \<in> fst ` set kvs" by simp
    with sizes have 1: "length (fst e) < 2 ^ 32" by auto
    from e have "(fst e, snd e) \<in> set (handles ?es 0)" by simp
    from handles_bounds[OF this] ld have "bh_offset (snd e) + bh_size (snd e) < 2 ^ 64" by simp
    with 1 show "length (fst e) < 2 ^ 32 \<and> bh_offset (snd e) < 2 ^ 64 \<and> bh_size (snd e) < 2 ^ 64"
      by simp
  qed
  have "length (handles ?es 0) = length kvs" using hk by (metis length_map length_sort)
  with count have hl: "length (handles ?es 0) < 2 ^ 32" by simp
  have "DecodeIndex (EncodeIndex (handles ?es 0)) = Inr (stored (handles ?es 0) [])"
    by (rule DecodeIndex_EncodeIndex[OF hl hb])
  also have "stored (handles ?es 0) [] = handles ?es 0"
    using stored_distinct[of "handles ?es 0"] dk hk by simp
  finally have di: "DecodeIndex (EncodeIndex (handles ?es 0)) = Inr (handles ?es 0)" .
  have "Load (sst_file kvs) =
          Inr \<lparr>sr_file = sst_file kvs, sr_valid = True, sr_bloom = sw_bloom w,
               sr_index = handles ?es 0\<rparr>"
    by (simp add: w(6) di)
  with w(1-5) show ?thesis by blast
qed

lemma get_added_key:
  assumes keys: "distinct (map fst kvs)"
    and sizes: "\<forall>(k, v) \<in> set kvs. length k < 2 ^ 32 \<and> length v < 2 ^ 32"
    and len: "length file < 2 ^ 63"
    and fl: "file = records (sort_key fst kvs) @ post"
    and wf: "bloom_wf b" and may: "all_bits_set b k"
    and kv: "(k, v) \<in> set kvs"
  shows "sst_Get \<lparr>sr_file = file, sr_valid = True, sr_bloom = b,
                  sr_index = handles (sort_key fst kvs) 0\<rparr> k = Inr (Some v)"
proof -
  let ?es = "sort_key fst kvs"
  have hk: "map fst (handles ?es 0) = map fst ?es" by (rule handles_keys)
  have "k \<in> fst ` set (handles ?es 0)"
    using kv hk by (metis (no_types, opaque_lifting) fst_conv image_eqI set_map set_sort)
  then obtain bh where bh: "map_of (handles ?es 0) k = Some bh"
    by (metis domD dom_map_of_conv_image_fst)
  then have "(k, bh) \<in> set (handles ?es 0)" by (rule map_of_SomeD)
  from handles_record[OF this] obtain v' pre post' where
    r: "(k, v') \<in> set ?es" "records ?es = pre @ EncodeKV k v' @ post'" "bh_offset bh = 0 + length pre"
    by blast
  from r(1) have "(k, v') \<in> set kvs" by simp
  with keys kv have v': "v' = v" using eq_key_imp_eq_value by metis
  have f2: "file = pre @ EncodeKV k v @ (post' @ post)" using fl r(2) v' by simp
  have lp: "length pre < 2 ^ 63" using len f2 by simp
  from sizes kv have sz: "length k < 2 ^ 32" "length v < 2 ^ 32" by auto
  have "ReadKVAt file bh k = Some v"
    using r(3) by (intro ReadKVAt_record[OF f2 _ lp sz]) simp
  then show ?thesis by (simp add: sst_Get_def MayContain_wf[OF wf] may bh)
qed

lemma get_other_key:
  assumes wf: "bloom_wf b" and nk: "k \<notin> fst ` set kvs"
  shows "sst_Get \<lparr>sr_file = file, sr_valid = True, sr_bloom = b,
                  sr_index = handles (sort_key fst kvs) 0\<rparr> k = Inr None"
proof -
  have "map fst (handles (sort_key fst kvs) 0) = map fst (sort_key fst kvs)" by (rule handles_keys)
  then have "fst ` set (handles (sort_key fst kvs) 0) = fst ` set kvs"
    by (metis set_map set_sort)
  with nk have "map_of (handles (sort_key fst kvs) 0) k = None"
    by (simp add: map_of_eq_None_iff)
  then show ?thesis
    by (cases "all_bits_set b k") (simp_all add: sst_Get_def MayContain_wf[OF wf])
qed

text \<open>
  Claim C7. The pairs have pairwise different keys, keys and values are shorter than
  \<open>2 ^ 32\<close> bytes, there are fewer than \<open>2 ^ 32\<close> pairs, and the file is shorter than
  \<open>2 ^ 63\<close> bytes. Then every \<open>Add\<close> returns, \<open>Finish\<close> succeeds, and the reader opened on
  the file is valid and returns the value \<open>v\<close> for every added pair \<open>(k, v)\<close> and nothing
  for every key that was not added.
\<close>

theorem sstable_round_trip:
  assumes keys: "distinct (map fst kvs)"
    and sizes: "\<forall>(k, v) \<in> set kvs. length k < 2 ^ 32 \<and> length v < 2 ^ 32"
    and count: "length kvs < 2 ^ 32"
    and len: "length (sst_file kvs) < 2 ^ 63"
  shows "\<exists>w r. add_all SSTableWriter_new kvs = Inr w \<and> Finish w = (True, sst_file kvs) \<and>
           Load (sst_file kvs) = Inr r \<and> sr_valid r \<and>
           (\<forall>(k, v) \<in> set kvs. sst_Get r k = Inr (Some v)) \<and>
           (\<forall>k. k \<notin> fst ` set kvs \<longrightarrow> sst_Get r k = Inr None)"
proof -
  from reader_of_file[OF keys sizes count len] obtain w post where
    w: "add_all SSTableWriter_new kvs = Inr w" "Finish w = (True, sst_file kvs)"
       "sst_file kvs = records (sort_key fst kvs) @ post"
       "bloom_wf (sw_bloom w)" "\<forall>k \<in> fst ` set kvs. all_bits_set (sw_bloom w) k"
       "Load (sst_file kvs) =
          Inr \<lparr>sr_file = sst_file kvs, sr_valid = True, sr_bloom = sw_bloom w,
               sr_index = handles (sort_key fst kvs) 0\<rparr>"
    by blast
  let ?r = "\<lparr>sr_file = sst_file kvs, sr_valid = True, sr_bloom = sw_bloom w,
             sr_index = handles (sort_key fst kvs) 0\<rparr>"
  have hit: "\<forall>(k, v) \<in> set kvs. sst_Get ?r k = Inr (Some v)"
  proof (clarify)
    fix k v assume kv: "(k, v) \<in> set kvs"
    then have "all_bits_set (sw_bloom w) k" using w(5) by force
    from get_added_key[OF keys sizes len w(3,4) this kv] show "sst_Get ?r k = Inr (Some v)" .
  qed
  have miss: "\<forall>k. k \<notin> fst ` set kvs \<longrightarrow> sst_Get ?r k = Inr None"
    using get_other_key[OF w(4)] by blast
  have "sr_valid ?r" by simp
  with w(1,2,6) hit miss show ?thesis by blast
qed

lemma length_sst_file:
  "length (sst_file kvs) = length (records (sort_key fst kvs)) + length (index_block kvs) + 1336"
proof -
  from new_writer_adds[of kvs] obtain w where
    w: "add_all SSTableWriter_new kvs = Inr w" "sw_open w" "sw_entries w = kvs"
       "length (bits (sw_bloom w)) = 1280"
    by blast
  have "length (bloom_Serialize (sw_bloom w)) = 1288"
    using length_bloom_Serialize[of "sw_bloom w"] w(4) by simp
  then show ?thesis
    using Finish_layout[OF w(2)] by (simp add: sst_file_def w(1,3) length_Footer_Serialize)
qed

definition demo_kvs :: "(string \<times> string) list" where
  "demo_kvs = [(''b'', ''2''), (''a'', ''1'')]"

lemma demo_sorted: "sort_key fst demo_kvs = [(''a'', ''1''), (''b'', ''2'')]"
  by (simp add: demo_kvs_def)

theorem sstable_round_trip_witness:
  "distinct (map fst demo_kvs) \<and> length demo_kvs < 2 ^ 32 \<and> length (sst_file demo_kvs) < 2 ^ 63 \<and>
   (\<exists>w r. add_all SSTableWriter_new demo_kvs = Inr w \<and> Finish w = (True, sst_file demo_kvs) \<and>
      Load (sst_file demo_kvs) = Inr r \<and> sr_valid r \<and>
      sst_Get r ''a'' = Inr (Some ''1'') \<and> sst_Get r ''b'' = Inr (Some ''2'') \<and>
      sst_Get r ''c'' = Inr None)"
proof -
  have h1: "distinct (map fst demo_kvs)" by (simp add: demo_kvs_def)
  have h2: "\<forall>(k, v) \<in> set demo_kvs. length k < 2 ^ 32 \<and> length v < 2 ^ 32"
    by (simp add: demo_kvs_def)
  have h3: "length demo_kvs < 2 ^ 32" by (simp add: demo_kvs_def)
  have "length (sst_file demo_kvs) = 1402"
    by (simp add: length_sst_file demo_sorted index_block_def records_def EncodeKV_def
        EncodeIndex_def encode_index_entry_def Let_def)
  then have h4: "length (sst_file demo_kvs) < 2 ^ 63" by simp
  from sstable_round_trip[OF h1 h2 h3 h4] obtain w r where
    r: "add_all SSTableWriter_new demo_kvs = Inr w" "Finish w = (True, sst_file demo_kvs)"
       "Load (sst_file demo_kvs) = Inr r" "sr_valid r"
       "\<forall>(k, v) \<in> set demo_kvs. sst_Get r k = Inr (Some v)"
       "\<forall>k. k \<notin> fst ` set demo_kvs \<longrightarrow> sst_Get r k = Inr None"
    by blast
  from r(5) have "sst_Get r ''a'' = Inr (Some ''1'')" "sst_Get r ''b'' = Inr (Some ''2'')"
    by (auto simp: demo_kvs_def)
  moreover from r(6) have "sst_Get r ''c'' = Inr None" by (simp add: demo_kvs_def)
  ultimately show ?thesis using h1 h3 h4 r(1-4) by blast
qed

text \<open>
  A key of \<open>2 ^ 32\<close> bytes. Its length is written as the four bytes of 0; the reader
  takes the entry of the index for the empty key and finds no entry for the key itself.
\<close>

definition big_key :: string where
  "big_key = replicate 4294967296 (CHR ''a'')"

lemma length_big_key: "length big_key = 4294967296"
  by (simp add: big_key_def)

lemma decode_entry_no_key:
  assumes "buf_read d pos 4 = Some kb" "le_nat kb = 0" "pos + 20 \<le> length d"
  shows "\<exists>bh. decode_entry d pos = Inr ([], bh, pos + 20)"
proof -
  have r2: "buf_read d (pos + 4) 0 = Some []" using assms(3) by (simp add: buf_read_def)
  have r3: "buf_read d (pos + 4) 8 = Some (take 8 (drop (pos + 4) d))"
    using assms(3) by (intro buf_read_inside) simp
  have r4: "buf_read d (pos + 12) 8 = Some (take 8 (drop (pos + 12) d))"
    using assms(3) by (intro buf_read_inside) simp
  have r4': "buf_read d (12 + pos) 8 = Some (take 8 (drop (12 + pos) d))"
    using r4 by (simp add: ac_simps)
  show ?thesis
    unfolding decode_entry_def assms(1) by (simp add: Let_def assms(2) r2 r3 r4 r4')
qed

theorem sstable_long_key_counterexample:
  "\<exists>w r. add_all SSTableWriter_new [(big_key, ''v'')] = Inr w \<and>
          Finish w = (True, sst_file [(big_key, ''v'')]) \<and>
          Load (sst_file [(big_key, ''v'')]) = Inr r \<and> sr_valid r \<and>
          sst_Get r big_key = Inr None"
proof -
  let ?kvs = "[(big_key, ''v'')]"
  have es: "sort_key fst ?kvs = ?kvs" by simp
  have lr: "length (records ?kvs) = 4294967305"
    by (simp add: records_def EncodeKV_def length_big_key)
  then have "0 + length (records ?kvs) < 2 ^ 64" by simp
  from write_records_spec[OF this]
  have wr: "write_records ?kvs 0 = (records ?kvs, length (records ?kvs), handles ?kvs 0)" by simp
  define bh where "bh = \<lparr>bh_offset = 0, bh_size = length (EncodeKV big_key ''v'')\<rparr>"
  have hs: "handles ?kvs 0 = [(big_key, bh)]" by (simp add: bh_def)
  define d where "d = EncodeIndex [(big_key, bh)]"
  have dd: "d = le_bytes 1 4 @ le_bytes (length big_key) 4 @ big_key @
                le_bytes (bh_offset bh) 8 @ le_bytes (bh_size bh) 8"
    by (simp add: d_def EncodeIndex_def encode_index_entry_def)
  have ldx: "length d = 4294967320" by (simp add: dd length_big_key)
  have ib: "index_block ?kvs = d" by (simp only: index_block_def es wr snd_conv hs d_def)
  have "length (sst_file ?kvs) = 4294967305 + 4294967320 + 1336"
    by (simp add: length_sst_file es lr ib ldx)
  then have len: "length (sst_file ?kvs) < 2 ^ 63" by simp
  from load_of_file[OF len] obtain w where
    w: "add_all SSTableWriter_new ?kvs = Inr w" "Finish w = (True, sst_file ?kvs)"
       "bloom_wf (sw_bloom w)"
       "Load (sst_file ?kvs) =
             (case DecodeIndex (EncodeIndex (handles (sort_key fst ?kvs) 0)) of
                Inl e \<Rightarrow> Inl e
              | Inr idx \<Rightarrow>
                  Inr \<lparr>sr_file = sst_file ?kvs, sr_valid = True, sr_bloom = sw_bloom w,
                       sr_index = idx\<rparr>)"
    by blast
  have r0: "buf_read d 0 4 = Some (le_bytes 1 4)"
    by (subst buf_read_inside) (simp_all add: ldx, simp add: dd)
  have n: "le_nat (le_bytes (Suc 0) 4) = Suc 0" by (simp add: le_nat_le_bytes)
  have r1: "buf_read d 4 4 = Some (le_bytes (length big_key) 4)"
    by (subst buf_read_inside) (simp_all add: ldx, simp add: dd)
  have k0: "le_nat (le_bytes (length big_key) 4) = 0"
    by (simp add: le_nat_le_bytes_mod length_big_key)
  from decode_entry_no_key[OF r1 k0] ldx obtain bh' where
    de: "decode_entry d 4 = Inr ([], bh', 4 + 20)" by auto
  have di: "DecodeIndex d = Inr [([], bh')]"
    by (simp add: DecodeIndex_def r0 n de)
  let ?r = "\<lparr>sr_file = sst_file ?kvs, sr_valid = True, sr_bloom = sw_bloom w,
             sr_index = [([], bh')]\<rparr>"
  have load: "Load (sst_file ?kvs) = Inr ?r"
    using w(4) by (simp only: es hs) (simp add: d_def[symmetric] di)
  have "big_key \<noteq> []" using length_big_key by auto
  then have get: "sst_Get ?r big_key = Inr None"
    by (cases "all_bits_set (sw_bloom w) big_key") (simp_all add: sst_Get_def MayContain_wf[OF w(3)])
  have "sr_valid ?r" by simp
  with w(1,2) load get show ?thesis by blast
qed

section \<open>LSM engine (storage/lsm_engine.h)\<close>

text \<open>
  The engine on its data directory, as one thread sees it under the locks. The bytes of
  the table files are in the readers. The write-ahead log is written by \<open>store\<close> and
  \<open>remove\<close> and read by the constructor only; the log and the statistics are left out.
  \<open>levels_\<close> is an array of \<open>kMaxLevels\<close> vectors of readers, the newest table of a level
  last.
\<close>

definition kMaxLevels :: nat where
  "kMaxLevels = 4"

record LSMEngine =
  lsm_sequence :: "64 word"
  sstable_counter :: "64 word"
  flush_pending :: bool
  lsm_memtable :: MemTable
  imm_memtable :: "MemTable option"
  levels :: "nat \<Rightarrow> SSTableReader list"

text \<open>The engine that the constructor builds on an empty data directory.\<close>

definition LSMEngine_new :: LSMEngine where
  "LSMEngine_new =
     \<lparr>lsm_sequence = 0, sstable_counter = 0, flush_pending = False,
      lsm_memtable = MemTable_new, imm_memtable = None, levels = (\<lambda>level. [])\<rparr>"

text \<open>
  \<open>load\<close>: the active memtable, the immutable memtable, then the tables of every level
  from the newest to the oldest.
\<close>

fun scan_tables :: "SSTableReader list \<Rightarrow> string \<Rightarrow> sst_error + string option" where
  "scan_tables [] k = Inr None"
| "scan_tables (r # rs) k =
     (case sst_Get r k of
        Inl e \<Rightarrow> Inl e
      | Inr (Some v) \<Rightarrow> Inr (Some v)
      | Inr None \<Rightarrow> scan_tables rs k)"

fun scan_levels ::
  "(nat \<Rightarrow> SSTableReader list) \<Rightarrow> nat list \<Rightarrow> string \<Rightarrow> sst_error + string option" where
  "scan_levels lv [] k = Inr None"
| "scan_levels lv (level # ls) k =
     (case scan_tables (rev (lv level)) k of
        Inl e \<Rightarrow> Inl e
      | Inr (Some v) \<Rightarrow> Inr (Some v)
      | Inr None \<Rightarrow> scan_levels lv ls k)"

definition from_lookup :: "LookupResult \<Rightarrow> LoadResult" where
  "from_lookup r = (if lk_deleted r then LoadResult_Miss else LoadResult_Hit (lk_value r))"

definition lsm_load :: "LSMEngine \<Rightarrow> string \<Rightarrow> sst_error + LoadResult" where
  "lsm_load e k =
     (let result = mt_Get (lsm_memtable e) k in
      if lk_found result then Inr (from_lookup result)
      else
        let imm_result = (case imm_memtable e of
                            None \<Rightarrow> \<lparr>lk_found = False, lk_value = [], lk_deleted = False\<rparr>
                          | Some imm \<Rightarrow> mt_Get imm k)
        in if lk_found imm_result then Inr (from_lookup imm_result)
           else
             (case scan_levels (levels e) [0..<kMaxLevels] k of
                Inl err \<Rightarrow> Inl err
              | Inr (Some v) \<Rightarrow> Inr (LoadResult_Hit v)
              | Inr None \<Rightarrow> Inr LoadResult_Miss))"

definition MaybeScheduleFlush :: "LSMEngine \<Rightarrow> LSMEngine" where
  "MaybeScheduleFlush e =
     (if ShouldFlush (lsm_memtable e) \<and> imm_memtable e = None
      then e\<lparr>imm_memtable := Some (lsm_memtable e), lsm_memtable := MemTable_new,
             flush_pending := True\<rparr>
      else e)"

definition lsm_store :: "LSMEngine \<Rightarrow> string \<Rightarrow> string \<Rightarrow> bool \<times> LSMEngine" where
  "lsm_store e k v =
     (let seq = lsm_sequence e
      in (True, MaybeScheduleFlush
                  (e\<lparr>lsm_sequence := seq + 1,
                     lsm_memtable := mt_Put (lsm_memtable e) k v seq\<rparr>)))"

definition lsm_remove :: "LSMEngine \<Rightarrow> string \<Rightarrow> bool \<times> LSMEngine" where
  "lsm_remove e k =
     (let seq = lsm_sequence e
      in (True, MaybeScheduleFlush
                  (e\<lparr>lsm_sequence := seq + 1,
                     lsm_memtable := mt_Delete (lsm_memtable e) k seq\<rparr>)))"

text \<open>
  A table written and opened: a writer on a new file, \<open>Add\<close> for every pair, \<open>Finish\<close>,
  and a reader on the file.
\<close>

definition write_table :: "(string \<times> string) list \<Rightarrow> sst_error + SSTableReader" where
  "write_table kvs =
     (case add_all SSTableWriter_new kvs of
        Inl e \<Rightarrow> Inl e
      | Inr w \<Rightarrow> Load (snd (Finish w)))"

text \<open>\<open>DoFlush\<close> adds the entries of type \<open>kValue\<close> in the order of the memtable; deletion markers are not written.\<close>

definition flush_entries :: "MemTable \<Rightarrow> (string \<times> string) list" where
  "flush_entries imm =
     map (\<lambda>(ik, v). (ik_key ik, v)) (filter (\<lambda>(ik, v). ik_type ik = kValue) (ForEach imm))"

definition DoFlush :: "LSMEngine \<Rightarrow> sst_error + LSMEngine" where
  "DoFlush e =
     (case imm_memtable e of
        None \<Rightarrow> Inr e
      | Some imm \<Rightarrow>
          (case write_table (flush_entries imm) of
             Inl err \<Rightarrow> Inl err
           | Inr r \<Rightarrow>
               Inr (e\<lparr>sstable_counter := sstable_counter e + 1,
                      levels := (levels e)(0 := levels e 0 @ [r]),
                      imm_memtable := None, flush_pending := False\<rparr>)))"

text \<open>
  \<open>CompactLevel\<close>. \<open>merged\<close> is a hash table; the loop over the tables of the level
  stores every pair (a later table replaces the value of an earlier one), the loop over
  the tables of the next level stores the pairs of keys that are not there yet
  (\<open>skip_present\<close>). The pairs of \<open>merged\<close> are added to the writer in the order of the
  hash table, here the order of insertion: \<open>Finish\<close> sorts them.
\<close>

fun merge_keys ::
  "bool \<Rightarrow> SSTableReader \<Rightarrow> string list \<Rightarrow> (string \<times> string) list \<Rightarrow>
   sst_error + (string \<times> string) list" where
  "merge_keys skip_present r [] merged = Inr merged"
| "merge_keys skip_present r (key # keys) merged =
     (if skip_present \<and> map_of merged key \<noteq> None then merge_keys skip_present r keys merged
      else
        (case sst_Get r key of
           Inl e \<Rightarrow> Inl e
         | Inr None \<Rightarrow> merge_keys skip_present r keys merged
         | Inr (Some val) \<Rightarrow> merge_keys skip_present r keys (map_put key val merged)))"

fun merge_tables ::
  "bool \<Rightarrow> SSTableReader list \<Rightarrow> (string \<times> string) list \<Rightarrow>
   sst_error + (string \<times> string) list" where
  "merge_tables skip_present [] merged = Inr merged"
| "merge_tables skip_present (r # rs) merged =
     (case merge_keys skip_present r (AllKeys r) merged of
        Inl e \<Rightarrow> Inl e
      | Inr merged' \<Rightarrow> merge_tables skip_present rs merged')"

definition CompactLevel :: "LSMEngine \<Rightarrow> nat \<Rightarrow> sst_error + LSMEngine" where
  "CompactLevel e level =
     (if level \<ge> kMaxLevels - 1 then Inr e
      else if levels e level = [] then Inr e
      else
        (case merge_tables False (levels e level) [] of
           Inl err \<Rightarrow> Inl err
         | Inr merged1 \<Rightarrow>
             (case merge_tables True (levels e (level + 1)) merged1 of
                Inl err \<Rightarrow> Inl err
              | Inr merged \<Rightarrow>
                  (case write_table merged of
                     Inl err \<Rightarrow> Inl err
                   | Inr r \<Rightarrow>
                       Inr (e\<lparr>sstable_counter := sstable_counter e + 1,
                              levels := (levels e)(level := [], level + 1 := [r])\<rparr>)))))"

definition ForceCompaction :: "LSMEngine \<Rightarrow> sst_error + LSMEngine" where
  "ForceCompaction e =
     (let e1 = (if entry_count (lsm_memtable e) > 0
                then e\<lparr>imm_memtable := Some (lsm_memtable e), lsm_memtable := MemTable_new,
                       flush_pending := True\<rparr>
                else e)
      in case (if flush_pending e1 \<and> imm_memtable e1 \<noteq> None then DoFlush e1 else Inr e1) of
           Inl err \<Rightarrow> Inl err
         | Inr e2 \<Rightarrow> if levels e2 0 \<noteq> [] then CompactLevel e2 0 else Inr e2)"

subsection \<open>A removed key comes back\<close>

lemma mt_Get_empty:
  assumes "mt_inv mt" "sl_nodes mt = []"
  shows "mt_Get mt k = \<lparr>lk_found = False, lk_value = [], lk_deleted = False\<rparr>"
proof -
  have p: "descend (sl_nodes mt) (probe k) (max_height mt) 0 = rank (probe k) (sl_nodes mt)"
    by (rule search_lands_at_rank[OF assms(1)])
  show ?thesis using p
    by (simp add: mt_Get_def Let_def probe_def[symmetric] assms(2) rank_def next_at_def)
qed

lemma mt_Get_single:
  assumes "mt_inv mt" "sl_nodes mt = [n]" "ik_key (sn_ikey n) = k"
  shows "mt_Get mt k = \<lparr>lk_found = True, lk_value = sn_value n,
                         lk_deleted = (ik_type (sn_ikey n) = kDeletion)\<rparr>"
proof -
  have p: "descend (sl_nodes mt) (probe k) (max_height mt) 0 = rank (probe k) (sl_nodes mt)"
    by (rule search_lands_at_rank[OF assms(1)])
  have r: "rank (probe k) [n] = 0" using assms(3) by (simp add: rank_def below_probe)
  have "list_all (\<lambda>n. 0 < sn_height n) [n]" using assms(1,2) by (simp add: mt_inv_def)
  from next_at_level0[OF this, of 0] have nx: "next_at [n] 0 0 = Some (Suc 0)" by simp
  show ?thesis using p
    by (simp add: mt_Get_def Let_def probe_def[symmetric] assms(2,3) r nx node_at_def)
qed

lemma Insert_empty:
  assumes "mt_inv mt" "sl_nodes mt = []"
  shows "\<exists>h. sl_nodes (Insert mt ikey v) = [\<lparr>sn_ikey = ikey, sn_value = v, sn_height = h\<rparr>] \<and>
             approx_size (Insert mt ikey v) = approx_size mt \<and>
             entry_count (Insert mt ikey v) = entry_count mt"
proof -
  have p: "descend (sl_nodes mt) ikey (max_height mt) 0 = rank ikey (sl_nodes mt)"
    by (rule search_lands_at_rank[OF assms(1)])
  obtain h s where rh: "RandomHeight (Suc 0) (rng_state mt) = (h, s)"
    by (cases "RandomHeight (Suc 0) (rng_state mt)")
  show ?thesis using p
    by (simp add: Insert_def Let_def assms(2) rank_def next_at_def rh)
qed

lemma first_put:
  "\<exists>h. sl_nodes (mt_Put MemTable_new k v seq) =
         [\<lparr>sn_ikey = \<lparr>ik_key = k, ik_sequence = seq, ik_type = kValue\<rparr>, sn_value = v,
           sn_height = h\<rparr>] \<and>
       approx_size (mt_Put MemTable_new k v seq) = length k + length v + 32 \<and>
       entry_count (mt_Put MemTable_new k v seq) = 1"
  using Insert_empty[OF mt_inv_new, of "\<lparr>ik_key = k, ik_sequence = seq, ik_type = kValue\<rparr>" v]
  by (auto simp: mt_Put_def Let_def MemTable_new_def)

lemma first_delete:
  "\<exists>h. sl_nodes (mt_Delete MemTable_new k seq) =
         [\<lparr>sn_ikey = \<lparr>ik_key = k, ik_sequence = seq, ik_type = kDeletion\<rparr>, sn_value = [],
           sn_height = h\<rparr>] \<and>
       approx_size (mt_Delete MemTable_new k seq) = length k + 32 \<and>
       entry_count (mt_Delete MemTable_new k seq) = 1"
  using Insert_empty[OF mt_inv_new, of "\<lparr>ik_key = k, ik_sequence = seq, ik_type = kDeletion\<rparr>" "[]"]
  by (auto simp: mt_Delete_def Let_def MemTable_new_def)

lemma mt_inv_Put: "mt_inv mt \<Longrightarrow> mt_inv (mt_Put mt k v seq)"
  using mt_inv_apply[of mt "Put k v seq"] by simp

lemma mt_inv_Delete: "mt_inv mt \<Longrightarrow> mt_inv (mt_Delete mt k seq)"
  using mt_inv_apply[of mt "Delete k seq"] by simp

text \<open>The table written for one pair of short strings, and the table written for no pair.\<close>

lemma write_table_one:
  assumes "length k < 1000" "length v < 1000"
  shows "\<exists>r. write_table [(k, v)] = Inr r \<and> AllKeys r = [k] \<and> sst_Get r k = Inr (Some v)"
proof -
  let ?kvs = "[(k, v)]"
  have es: "sort_key fst ?kvs = ?kvs" by simp
  have h1: "distinct (map fst ?kvs)" by simp
  have h2: "\<forall>(k, v) \<in> set ?kvs. length k < 2 ^ 32 \<and> length v < 2 ^ 32" using assms by simp
  have h3: "length ?kvs < 2 ^ 32" by simp
  have "length (sst_file ?kvs) = 2 * length k + length v + 1368"
    by (simp add: length_sst_file index_block_def records_def EncodeKV_def
        EncodeIndex_def encode_index_entry_def Let_def)
  then have h4: "length (sst_file ?kvs) < 2 ^ 63" using assms by simp
  from reader_of_file[OF h1 h2 h3 h4] obtain w post where
    w: "add_all SSTableWriter_new ?kvs = Inr w" "Finish w = (True, sst_file ?kvs)"
       "sst_file ?kvs = records (sort_key fst ?kvs) @ post"
       "bloom_wf (sw_bloom w)" "\<forall>k \<in> fst ` set ?kvs. all_bits_set (sw_bloom w) k"
       "Load (sst_file ?kvs) =
          Inr \<lparr>sr_file = sst_file ?kvs, sr_valid = True, sr_bloom = sw_bloom w,
               sr_index = handles (sort_key fst ?kvs) 0\<rparr>"
    by blast
  let ?r = "\<lparr>sr_file = sst_file ?kvs, sr_valid = True, sr_bloom = sw_bloom w,
             sr_index = handles (sort_key fst ?kvs) 0\<rparr>"
  have wt: "write_table ?kvs = Inr ?r" by (simp only: write_table_def w(1,2,6) sum.case snd_conv)
  have ak: "AllKeys ?r = [k]" by (simp add: AllKeys_def)
  have may: "all_bits_set (sw_bloom w) k" using w(5) by simp
  have "(k, v) \<in> set ?kvs" by simp
  from get_added_key[OF h1 h2 h4 w(3,4) may this] have "sst_Get ?r k = Inr (Some v)" .
  with wt ak show ?thesis by blast
qed

lemma write_table_none: "\<exists>r. write_table [] = Inr r \<and> AllKeys r = []"
proof -
  let ?kvs = "[] :: (string \<times> string) list"
  have h1: "distinct (map fst ?kvs)" by simp
  have h2: "\<forall>(k, v) \<in> set ?kvs. length k < 2 ^ 32 \<and> length v < 2 ^ 32" by simp
  have h3: "length ?kvs < 2 ^ 32" by simp
  have "length (sst_file ?kvs) = 1340"
    by (simp add: length_sst_file index_block_def records_def EncodeIndex_def)
  then have h4: "length (sst_file ?kvs) < 2 ^ 63" by simp
  from reader_of_file[OF h1 h2 h3 h4] obtain w where
    w: "add_all SSTableWriter_new ?kvs = Inr w" "Finish w = (True, sst_file ?kvs)"
       "Load (sst_file ?kvs) =
          Inr \<lparr>sr_file = sst_file ?kvs, sr_valid = True, sr_bloom = sw_bloom w,
               sr_index = handles (sort_key fst ?kvs) 0\<rparr>"
    by blast
  let ?r = "\<lparr>sr_file = sst_file ?kvs, sr_valid = True, sr_bloom = sw_bloom w,
             sr_index = handles (sort_key fst ?kvs) 0\<rparr>"
  have wt: "write_table ?kvs = Inr ?r" by (simp only: write_table_def w sum.case snd_conv)
  have ak: "AllKeys ?r = []" by (simp add: AllKeys_def)
  with wt show ?thesis by blast
qed

text \<open>
  Claim C1. On a new engine: \<open>store(k, v)\<close>, then a flush and compaction
  (\<open>ForceCompaction\<close>), then \<open>remove(k)\<close>. \<open>load(k)\<close> returns Hit before the removal and
  Miss after it. The next \<open>ForceCompaction\<close> flushes the memtable that holds the deletion
  marker: \<open>DoFlush\<close> writes no entry for it, the compaction copies the pair of the older
  table, and \<open>load(k)\<close> returns Hit with the removed value.
\<close>

theorem lsm_removed_key_returns_after_flush:
  "\<exists>e1 e2 e3 e4.
     lsm_store LSMEngine_new ''k'' ''v'' = (True, e1) \<and>
     lsm_load e1 ''k'' = Inr (LoadResult_Hit ''v'') \<and>
     ForceCompaction e1 = Inr e2 \<and>
     lsm_load e2 ''k'' = Inr (LoadResult_Hit ''v'') \<and>
     lsm_remove e2 ''k'' = (True, e3) \<and>
     lsm_load e3 ''k'' = Inr LoadResult_Miss \<and>
     ForceCompaction e3 = Inr e4 \<and>
     lsm_load e4 ''k'' = Inr (LoadResult_Hit ''v'')"
proof -
  from write_table_one[of "''k''" "''v''"] obtain r1 where
    r1: "write_table [(''k'', ''v'')] = Inr r1" "AllKeys r1 = [''k'']"
        "sst_Get r1 ''k'' = Inr (Some ''v'')"
    by auto
  from write_table_none obtain r0 where
    r0: "write_table [] = Inr r0" "AllKeys r0 = []"
    by auto
  define m1 where "m1 = mt_Put MemTable_new ''k'' ''v'' 0"
  define m3 where "m3 = mt_Delete MemTable_new ''k'' 1"
  from first_put[of "''k''" "''v''" 0] obtain h1 where
    m1: "sl_nodes m1 = [\<lparr>sn_ikey = \<lparr>ik_key = ''k'', ik_sequence = 0, ik_type = kValue\<rparr>,
                         sn_value = ''v'', sn_height = h1\<rparr>]"
        "approx_size m1 = 34" "entry_count m1 = 1"
    by (auto simp: m1_def)
  from first_delete[of "''k''" 1] obtain h3 where
    m3: "sl_nodes m3 = [\<lparr>sn_ikey = \<lparr>ik_key = ''k'', ik_sequence = 1, ik_type = kDeletion\<rparr>,
                         sn_value = [], sn_height = h3\<rparr>]"
        "approx_size m3 = 33" "entry_count m3 = 1"
    by (auto simp: m3_def)
  have i1: "mt_inv m1" unfolding m1_def by (rule mt_inv_Put[OF mt_inv_new])
  have i3: "mt_inv m3" unfolding m3_def by (rule mt_inv_Delete[OF mt_inv_new])
  have g0: "mt_Get MemTable_new ''k'' = \<lparr>lk_found = False, lk_value = [], lk_deleted = False\<rparr>"
    by (rule mt_Get_empty[OF mt_inv_new]) (simp add: MemTable_new_def)
  have g1: "mt_Get m1 ''k'' = \<lparr>lk_found = True, lk_value = ''v'', lk_deleted = False\<rparr>"
    using mt_Get_single[OF i1 m1(1), of "''k''"] by simp
  have g3: "mt_Get m3 ''k'' = \<lparr>lk_found = True, lk_value = [], lk_deleted = True\<rparr>"
    using mt_Get_single[OF i3 m3(1), of "''k''"] by simp
  have f1: "flush_entries m1 = [(''k'', ''v'')]" by (simp add: flush_entries_def ForEach_def m1(1))
  have f3: "flush_entries m3 = []" by (simp add: flush_entries_def ForEach_def m3(1))
  define e1 where "e1 = \<lparr>lsm_sequence = 1, sstable_counter = 0, flush_pending = False,
      lsm_memtable = m1, imm_memtable = None, levels = (\<lambda>level. [])\<rparr>"
  define e2 where "e2 = \<lparr>lsm_sequence = 1, sstable_counter = 2, flush_pending = False,
      lsm_memtable = MemTable_new, imm_memtable = None,
      levels = (\<lambda>level. if level = 1 then [r1] else [])\<rparr>"
  define e3 where "e3 = \<lparr>lsm_sequence = 2, sstable_counter = 2, flush_pending = False,
      lsm_memtable = m3, imm_memtable = None,
      levels = (\<lambda>level. if level = 1 then [r1] else [])\<rparr>"
  define e4 where "e4 = \<lparr>lsm_sequence = 2, sstable_counter = 4, flush_pending = False,
      lsm_memtable = MemTable_new, imm_memtable = None,
      levels = (\<lambda>level. if level = 1 then [r1] else [])\<rparr>"
  have lv: "[0..<kMaxLevels] = [0, 1, 2, 3]" by (simp add: kMaxLevels_def upt_conv_Cons)
  have s1: "lsm_store LSMEngine_new ''k'' ''v'' = (True, e1)"
    by (simp add: lsm_store_def LSMEngine_new_def MaybeScheduleFlush_def ShouldFlush_def
        kWriteBufferSize_def m1_def[symmetric] m1(2) e1_def)
  have l1: "lsm_load e1 ''k'' = Inr (LoadResult_Hit ''v'')"
    by (simp add: lsm_load_def e1_def g1 from_lookup_def)
  have c1: "ForceCompaction e1 = Inr e2"
    by (simp add: ForceCompaction_def e1_def m1(3) DoFlush_def f1 r1 CompactLevel_def
        kMaxLevels_def e2_def fun_eq_iff)
  have l2: "lsm_load e2 ''k'' = Inr (LoadResult_Hit ''v'')"
    by (simp add: lsm_load_def e2_def g0 lv r1)
  have s3: "lsm_remove e2 ''k'' = (True, e3)"
    by (simp add: lsm_remove_def e2_def MaybeScheduleFlush_def ShouldFlush_def
        kWriteBufferSize_def m3_def[symmetric] m3(2) e3_def)
  have l3: "lsm_load e3 ''k'' = Inr LoadResult_Miss"
    by (simp add: lsm_load_def e3_def g3 from_lookup_def)
  have c3: "ForceCompaction e3 = Inr e4"
    by (simp add: ForceCompaction_def e3_def m3(3) DoFlush_def f3 r0 r1 CompactLevel_def
        kMaxLevels_def e4_def fun_eq_iff)
  have l4: "lsm_load e4 ''k'' = Inr (LoadResult_Hit ''v'')"
    by (simp add: lsm_load_def e4_def g0 lv r1)
  from s1 l1 c1 l2 s3 l3 c3 l4 show ?thesis by blast
qed

end
